theory Spec2Isabelle
  imports Main "HOL-Library.Word"
begin

unbundle bit_operations_syntax

text \<open>
  A model of \<^verbatim>\<open>src/main.c\<close> of csteg, which hides a file in the two low bits of the
  colour samples of a PNG image (\<^verbatim>\<open>write_data\<close>) and recovers it (\<^verbatim>\<open>read_data\<close>).
  Decoding and encoding the PNG, the command line and the files on disk are outside
  the model: \<^verbatim>\<open>write_data\<close> takes the decoded image, the file name and the bytes of the
  file and returns the image to encode; \<^verbatim>\<open>read_data\<close> takes the decoded image and
  returns the file name and the bytes to write.
\<close>

section \<open>The image held by the program\<close>

text \<open>
  \<^verbatim>\<open>main.c\<close> keeps the decoded PNG in globals: \<^verbatim>\<open>width\<close>, \<^verbatim>\<open>height\<close>,
  \<^verbatim>\<open>color_type\<close> and \<^verbatim>\<open>row_pointers\<close>, an array of \<^verbatim>\<open>height\<close> rows of bytes.
  \<^verbatim>\<open>read_png_file\<close> aborts unless the colour type is RGB or RGBA, so the type below
  has these two values only. The globals are passed and returned explicitly.

  The integer types are those of an LP64 platform: \<^verbatim>\<open>int\<close> and \<^verbatim>\<open>unsigned int\<close>
  (\<^verbatim>\<open>uint32_t\<close>) have 32 bits, \<^verbatim>\<open>size_t\<close> has 64. \<^verbatim>\<open>size_t\<close> values (bit
  indices, offsets, \<^verbatim>\<open>width\<close>, \<^verbatim>\<open>height\<close>) are natural numbers: for an image and a
  file name that fit in memory none of the \<^verbatim>\<open>size_t\<close> computations below reaches
  \<open>2 ^ 64\<close>. The \<^verbatim>\<open>uint32_t\<close> values (\<^verbatim>\<open>size\<close>, \<^verbatim>\<open>data_filename_length\<close>,
  \<^verbatim>\<open>data_file_size\<close>) are 32-bit words, whose arithmetic wraps around as C's unsigned
  arithmetic does; an \<^verbatim>\<open>int\<close> shifted into its sign bit (\<^verbatim>\<open>0xFF << 24\<close>,
  \<^verbatim>\<open>3 << 30\<close>) is the 32-bit word with that bit pattern. A sample is a byte of a row;
  neither function looks at \<^verbatim>\<open>bit_depth\<close>.
\<close>

type_synonym byte = "8 word"
type_synonym uint32 = "32 word"

datatype color = PNG_COLOR_TYPE_RGB | PNG_COLOR_TYPE_RGBA

record png =
  width :: nat
  height :: nat
  color_type :: color
  row_pointers :: "byte list list"

text \<open>
  The ways a run ends without a result. \<open>PngTooSmall r f\<close> is the \<^verbatim>\<open>abort_msg\<close> of
  \<^verbatim>\<open>write_data\<close>, with the two byte counts it prints. The source checks no index:
  an access outside \<^verbatim>\<open>row_pointers\<close> and a division by a zero \<^verbatim>\<open>width\<close> are
  undefined behaviour in C, which the model makes visible as \<open>OutOfBounds\<close> and
  \<open>DivisionByZero\<close>.
\<close>

datatype error = PngTooSmall nat nat | OutOfBounds | DivisionByZero

definition channels :: "color \<Rightarrow> nat" where
  "channels c = (case c of PNG_COLOR_TYPE_RGBA \<Rightarrow> 4 | PNG_COLOR_TYPE_RGB \<Rightarrow> 3)"

text \<open>
  The address computation that each of the five loops repeats: for the bit index \<open>i\<close>
  (two bits per step) the row \<open>y\<close>, the pixel \<open>x\<close> in the row and the colour channel.
\<close>

definition locate :: "nat \<Rightarrow> nat \<Rightarrow> nat \<times> nat \<times> nat" where
  "locate i w =
     (let byte_offset = i div 6;
          color_offset = (i div 2) mod 3;
          x = byte_offset mod w;
          y = byte_offset div w
      in (y, x, color_offset))"

text \<open>
  \<^verbatim>\<open>pixel = &(row_pointers[y][x*4])\<close> (or \<^verbatim>\<open>x*3\<close>) followed by
  \<^verbatim>\<open>pixel[color_offset]\<close>: the byte \<open>x * channels + color_offset\<close> of row \<open>y\<close>.
\<close>

definition sample_addr :: "png \<Rightarrow> nat \<Rightarrow> error + (nat \<times> nat)" where
  "sample_addr g i =
     (if width g = 0 then Inl DivisionByZero
      else (case locate i (width g) of (y, x, color_offset) \<Rightarrow>
        (let k = x * channels (color_type g) + color_offset
         in if y < length (row_pointers g) \<and> k < length (row_pointers g ! y)
            then Inr (y, k) else Inl OutOfBounds)))"

definition get_sample :: "png \<Rightarrow> nat \<Rightarrow> error + byte" where
  "get_sample g i =
     (case sample_addr g i of Inl e \<Rightarrow> Inl e
      | Inr (y, k) \<Rightarrow> Inr (row_pointers g ! y ! k))"

text \<open>
  \<^verbatim>\<open>pixel[color_offset] &= 0xFC; pixel[color_offset] |= data_chunk;\<close>
\<close>

definition set_chunk :: "png \<Rightarrow> nat \<Rightarrow> byte \<Rightarrow> error + png" where
  "set_chunk g i data_chunk =
     (case sample_addr g i of Inl e \<Rightarrow> Inl e
      | Inr (y, k) \<Rightarrow>
          Inr (g\<lparr>row_pointers := (row_pointers g)
                 [y := (row_pointers g ! y)
                    [k := (row_pointers g ! y ! k AND 0xFC) OR data_chunk]]\<rparr>))"

text \<open>
  \<^verbatim>\<open>data_chunk = (data_byte & (0x3 << bit_offset)) >> bit_offset\<close>, computed in
  \<^verbatim>\<open>int\<close> and stored in a \<^verbatim>\<open>uint8_t\<close>.
\<close>

definition data_chunk_of :: "byte \<Rightarrow> nat \<Rightarrow> byte" where
  "data_chunk_of data_byte bit_offset =
     ucast (drop_bit bit_offset ((ucast data_byte :: uint32) AND push_bit bit_offset 0x3))"

section \<open>The signature\<close>

text \<open>
  \<^verbatim>\<open>byte_buffer = (filename_length & (0xFF << (i * 8))) >> (i * 8)\<close>: the mask is an
  \<^verbatim>\<open>int\<close>; against the \<^verbatim>\<open>size_t\<close> \<^verbatim>\<open>filename_length\<close> it is sign-extended to 64
  bits, against the \<^verbatim>\<open>uint32_t\<close> \<^verbatim>\<open>file_size\<close> it is taken as it is. The result is
  cut to a \<^verbatim>\<open>uint8_t\<close>.
\<close>

definition filename_length_byte :: "64 word \<Rightarrow> nat \<Rightarrow> byte" where
  "filename_length_byte filename_length i =
     ucast (drop_bit (i * 8)
       (filename_length AND scast (push_bit (i * 8) (0xFF :: uint32))))"

definition file_size_byte :: "uint32 \<Rightarrow> nat \<Rightarrow> byte" where
  "file_size_byte file_size i =
     ucast (drop_bit (i * 8) (file_size AND push_bit (i * 8) 0xFF))"

text \<open>
  \<^verbatim>\<open>generate_signature\<close>: the two loops run \<open>i = 3, 2, 1, 0\<close>; the third copies the
  file name. The file name is the bytes of the C string before its terminator, so
  \<^verbatim>\<open>strlen\<close> is its length.
\<close>

definition generate_signature :: "byte list \<Rightarrow> uint32 \<Rightarrow> byte list" where
  "generate_signature filename file_size =
     (let filename_length = (of_nat (length filename) :: 64 word)
      in map (filename_length_byte filename_length) [3, 2, 1, 0]
         @ map (file_size_byte file_size) [3, 2, 1, 0]
         @ filename)"

section \<open>Writing\<close>

text \<open>The first loop of \<^verbatim>\<open>write_data\<close>: the signature, two bits per step.\<close>

function write_sig_loop :: "png \<Rightarrow> byte list \<Rightarrow> nat \<Rightarrow> nat \<Rightarrow> error + png" where
  "write_sig_loop g signature sig_size i =
     (if i < sig_size * 8 then
        (let bit_offset = 6 - i mod 8;
             data_byte = signature ! (i div 8)
         in case set_chunk g i (data_chunk_of data_byte bit_offset) of
              Inl e \<Rightarrow> Inl e
            | Inr g' \<Rightarrow> write_sig_loop g' signature sig_size (i + 2))
      else Inr g)"
  by pat_completeness auto
termination
  by (relation "measure (\<lambda>(g, signature, sig_size, i). sig_size * 8 - i)") auto

text \<open>
  \<^verbatim>\<open>fread(&data_byte, 1, 1, file_ptr)\<close>: the next byte of the file, or nothing at its
  end (\<^verbatim>\<open>data_byte\<close> keeps its value).
\<close>

definition fread1 :: "byte list \<Rightarrow> nat \<Rightarrow> byte \<Rightarrow> byte \<times> nat" where
  "fread1 file pos data_byte =
     (if pos < length file then (file ! pos, pos + 1) else (data_byte, pos))"

text \<open>The second loop of \<^verbatim>\<open>write_data\<close>: the bytes of the file.\<close>

function write_file_loop ::
  "png \<Rightarrow> byte list \<Rightarrow> nat \<Rightarrow> byte \<Rightarrow> nat \<Rightarrow> nat \<Rightarrow> error + png" where
  "write_file_loop g file pos data_byte required_data_bits i =
     (if i < required_data_bits then
        (let bit_offset = 6 - i mod 8
         in case set_chunk g i (data_chunk_of data_byte bit_offset) of
              Inl e \<Rightarrow> Inl e
            | Inr g' \<Rightarrow>
                (if bit_offset = 0
                 then write_file_loop g' file (snd (fread1 file pos data_byte))
                        (fst (fread1 file pos data_byte)) required_data_bits (i + 2)
                 else write_file_loop g' file pos data_byte required_data_bits (i + 2)))
      else Inr g)"
  by pat_completeness auto
termination
  by (relation "measure (\<lambda>(g, file, pos, data_byte, required_data_bits, i).
        required_data_bits - i)") auto

text \<open>
  \<^verbatim>\<open>write_data\<close> between reading the PNG and writing it back. \<^verbatim>\<open>size\<close> is a
  \<^verbatim>\<open>uint32_t\<close>, so \<^verbatim>\<open>size * 8\<close> is a 32-bit product; the sum with
  \<^verbatim>\<open>sig_size * 8\<close> is a \<^verbatim>\<open>size_t\<close>. When the second loop starts, \<^verbatim>\<open>data_byte\<close>
  holds the last byte of the signature until the first \<^verbatim>\<open>fread\<close> replaces it.
\<close>

definition write_data :: "png \<Rightarrow> byte list \<Rightarrow> byte list \<Rightarrow> error + png" where
  "write_data g data_filename file =
     (let size = (of_nat (length file) :: uint32);
          signature = generate_signature data_filename size;
          sig_size = 8 + length data_filename;
          max_data_bits = width g * height g * 6;
          required_data_bits = sig_size * 8 + unat (size * 8)
      in if required_data_bits > max_data_bits
         then Inl (PngTooSmall (required_data_bits div 8) (max_data_bits div 8))
         else (case write_sig_loop g signature sig_size 0 of
                 Inl e \<Rightarrow> Inl e
               | Inr g' \<Rightarrow>
                   write_file_loop g' file
                     (snd (fread1 file 0 (signature ! (sig_size - 1))))
                     (fst (fread1 file 0 (signature ! (sig_size - 1))))
                     required_data_bits (sig_size * 8)))"

section \<open>Reading\<close>

text \<open>
  The two loops that read a 32-bit length: \<^verbatim>\<open>bit_offset\<close> is \<open>top_bit - i\<close>, with
  \<open>top_bit = 30\<close> for the first and \<open>top_bit = 62\<close> for the second;
  \<^verbatim>\<open>(pixel[color_offset] & 0x3) << bit_offset\<close> is an \<^verbatim>\<open>int\<close>.
\<close>

function read_size_loop :: "png \<Rightarrow> nat \<Rightarrow> nat \<Rightarrow> uint32 \<Rightarrow> nat \<Rightarrow> error + uint32" where
  "read_size_loop g top_bit end_pos acc i =
     (if i < end_pos then
        (let bit_offset = top_bit - i
         in case get_sample g i of
              Inl e \<Rightarrow> Inl e
            | Inr s \<Rightarrow>
                read_size_loop g top_bit end_pos
                  (acc OR push_bit bit_offset ((ucast s :: uint32) AND 0x3)) (i + 2))
      else Inr acc)"
  by pat_completeness auto
termination
  by (relation "measure (\<lambda>(g, top_bit, end_pos, acc, i). end_pos - i)") auto

text \<open>
  The two loops that read bytes (the file name, then the data) into a buffer that
  \<^verbatim>\<open>malloc\<close> returned. The buffer is the function \<open>buf\<close> from offsets to bytes; the
  loop ORs into what the buffer holds.
\<close>

function read_bytes_loop ::
  "png \<Rightarrow> nat \<Rightarrow> (nat \<Rightarrow> byte) \<Rightarrow> nat \<Rightarrow> nat \<Rightarrow> error + (nat \<Rightarrow> byte)" where
  "read_bytes_loop g end_pos buf pos i =
     (if i < end_pos then
        (let bit_offset = 6 - i mod 8
         in case get_sample g i of
              Inl e \<Rightarrow> Inl e
            | Inr s \<Rightarrow>
                read_bytes_loop g end_pos
                  (buf(pos := buf pos OR
                     ucast (push_bit bit_offset ((ucast s :: uint32) AND 0x3))))
                  (if bit_offset = 0 then pos + 1 else pos) (i + 2))
      else Inr buf)"
  by pat_completeness auto
termination
  by (relation "measure (\<lambda>(g, end_pos, buf, pos, i). end_pos - i)") auto

text \<open>
  \<^verbatim>\<open>read_data\<close> between reading the PNG and writing the file. \<^verbatim>\<open>malloc\<close> does not
  clear what it returns: \<open>name_mem\<close> and \<open>data_mem\<close> are the contents of the two
  buffers when \<^verbatim>\<open>malloc\<close> hands them out. The loop bounds are \<^verbatim>\<open>unsigned int\<close>
  expressions (\<^verbatim>\<open>SIG_SIZE_BITS * 2 + data_filename_length * 8\<close>), so they wrap at
  \<open>2 ^ 32\<close>. The result is the \<^verbatim>\<open>data_filename_length\<close> bytes of the file name
  buffer and the \<^verbatim>\<open>data_file_size\<close> bytes of the data buffer that \<^verbatim>\<open>fwrite\<close> writes.
  (The file name buffer has no room for a terminator; where \<^verbatim>\<open>access\<close> and
  \<^verbatim>\<open>fopen\<close> see the name end is outside the model.)
\<close>

definition read_data ::
  "png \<Rightarrow> (nat \<Rightarrow> byte) \<Rightarrow> (nat \<Rightarrow> byte) \<Rightarrow> error + (byte list \<times> byte list)" where
  "read_data g name_mem data_mem =
     (case read_size_loop g 30 32 0 0 of
        Inl e \<Rightarrow> Inl e
      | Inr data_filename_length \<Rightarrow>
     (case read_size_loop g 62 64 0 32 of
        Inl e \<Rightarrow> Inl e
      | Inr data_file_size \<Rightarrow>
     (case read_bytes_loop g (unat (64 + data_filename_length * 8)) name_mem 0 64 of
        Inl e \<Rightarrow> Inl e
      | Inr data_filename \<Rightarrow>
     (case read_bytes_loop g
             (unat (64 + data_filename_length * 8 + data_file_size * 8)) data_mem 0
             (unat (64 + data_filename_length * 8)) of
        Inl e \<Rightarrow> Inl e
      | Inr data \<Rightarrow>
          Inr (map data_filename [0..<unat data_filename_length],
               map data [0..<unat data_file_size])))))"

section \<open>Well-formed images\<close>

text \<open>
  What \<^verbatim>\<open>read_png_file\<close> delivers for an 8-bit image: \<^verbatim>\<open>height\<close> rows of
  \<^verbatim>\<open>width\<close> pixels, three or four bytes each; libpng refuses an image with no
  pixels.
\<close>

definition wf_png :: "png \<Rightarrow> bool" where
  "wf_png g \<longleftrightarrow>
     0 < width g \<and> 0 < height g \<and> length (row_pointers g) = height g \<and>
     (\<forall>r \<in> set (row_pointers g). length r = width g * channels (color_type g))"

section \<open>Notions used in the statements and proofs\<close>

text \<open>
  None of the following is in the source; each is introduced to state or prove a
  property of the functions above.
\<close>

text \<open>
  One loop that writes the chunk \<open>f i\<close> at every second bit index from \<open>i\<close> up to
  \<open>n\<close>: both loops of \<^verbatim>\<open>write_data\<close> are shown to be instances of it.
\<close>

function put_chunks :: "png \<Rightarrow> (nat \<Rightarrow> byte) \<Rightarrow> nat \<Rightarrow> nat \<Rightarrow> error + png" where
  "put_chunks g f n i =
     (if i < n then
        (case set_chunk g i (f i) of
           Inl e \<Rightarrow> Inl e
         | Inr g' \<Rightarrow> put_chunks g' f n (i + 2))
      else Inr g)"
  by pat_completeness auto
termination
  by (relation "measure (\<lambda>(g, f, n, i). n - i)") auto

declare put_chunks.simps [simp del]
declare write_sig_loop.simps [simp del]
declare write_file_loop.simps [simp del]
declare read_size_loop.simps [simp del]
declare read_bytes_loop.simps [simp del]

text \<open>The chunk of the byte stream \<open>bs\<close> that belongs to bit index \<open>i\<close>.\<close>

definition stream_chunk :: "byte list \<Rightarrow> nat \<Rightarrow> byte" where
  "stream_chunk bs = (\<lambda>i. data_chunk_of (bs ! (i div 8)) (6 - i mod 8))"

text \<open>
  \<^verbatim>\<open>required_data_bits\<close> and \<^verbatim>\<open>max_data_bits\<close> as \<^verbatim>\<open>write_data\<close> computes them.
\<close>

definition required_data_bits :: "byte list \<Rightarrow> byte list \<Rightarrow> nat" where
  "required_data_bits data_filename file =
     (8 + length data_filename) * 8 + unat ((of_nat (length file) :: uint32) * 8)"

definition max_data_bits :: "png \<Rightarrow> nat" where
  "max_data_bits g = width g * height g * 6"

text \<open>Two images of the same dimensions, colour type and row lengths.\<close>

definition same_shape :: "png \<Rightarrow> png \<Rightarrow> bool" where
  "same_shape g g' \<longleftrightarrow>
     width g' = width g \<and> height g' = height g \<and> color_type g' = color_type g \<and>
     map length (row_pointers g') = map length (row_pointers g)"

text \<open>The byte \<open>k\<close> of row \<open>y\<close>, and whether the image has such a byte.\<close>

definition px :: "png \<Rightarrow> nat \<Rightarrow> nat \<Rightarrow> byte" where
  "px g y k = row_pointers g ! y ! k"

definition in_png :: "png \<Rightarrow> nat \<Rightarrow> nat \<Rightarrow> bool" where
  "in_png g y k \<longleftrightarrow> y < length (row_pointers g) \<and> k < length (row_pointers g ! y)"

text \<open>
  The two low bits of the samples of an image other than byte 3 of a pixel, row by row.
\<close>

definition usable_low_bits :: "png \<Rightarrow> byte list list" where
  "usable_low_bits g =
     map (\<lambda>row. map (\<lambda>k. row ! k AND 3)
                  (filter (\<lambda>k. k mod channels (color_type g) < 3) [0..<length row]))
         (row_pointers g)"

text \<open>
  The sample that the loops read at bit index \<open>i\<close> (0 where the read leaves the
  image), and the byte that four consecutive chunks make, most significant pair first.
\<close>

definition smp :: "png \<Rightarrow> nat \<Rightarrow> byte" where
  "smp g i = (case get_sample g i of Inl e \<Rightarrow> 0 | Inr s \<Rightarrow> s)"

definition assemble :: "byte \<Rightarrow> byte \<Rightarrow> byte \<Rightarrow> byte \<Rightarrow> byte" where
  "assemble c0 c1 c2 c3 = push_bit 6 c0 OR push_bit 4 c1 OR push_bit 2 c2 OR c3"

definition byte_at :: "png \<Rightarrow> nat \<Rightarrow> byte" where
  "byte_at g q = assemble (smp g (8 * q) AND 3) (smp g (8 * q + 2) AND 3)
                          (smp g (8 * q + 4) AND 3) (smp g (8 * q + 6) AND 3)"

text \<open>A 32-bit value and its four bytes, most significant byte first.\<close>

definition be32_val :: "byte list \<Rightarrow> uint32" where
  "be32_val bs = push_bit 24 (ucast (bs ! 0)) OR push_bit 16 (ucast (bs ! 1))
                 OR push_bit 8 (ucast (bs ! 2)) OR ucast (bs ! 3)"

definition be32 :: "uint32 \<Rightarrow> byte list" where
  "be32 v = [ucast (drop_bit 24 v), ucast (drop_bit 16 v), ucast (drop_bit 8 v), ucast v]"

text \<open>
  What the reading loops use of the sample at bit index \<open>i\<close>:
  \<^verbatim>\<open>pixel[color_offset] & 0x3\<close>.
\<close>

definition chunk_of :: "png \<Rightarrow> nat \<Rightarrow> error + byte" where
  "chunk_of g i = (case get_sample g i of Inl e \<Rightarrow> Inl e | Inr s \<Rightarrow> Inr (s AND 3))"

text \<open>
  The two lengths that \<^verbatim>\<open>read_data\<close> decodes from the first 64 bits of an image.
\<close>

definition data_filename_length_of :: "png \<Rightarrow> uint32" where
  "data_filename_length_of g = be32_val (map (byte_at g) [0, 1, 2, 3])"

definition data_file_size_of :: "png \<Rightarrow> uint32" where
  "data_file_size_of g = be32_val (map (byte_at g) [4, 5, 6, 7])"

text \<open>
  Contents of a buffer as \<^verbatim>\<open>malloc\<close> may return it: zero bytes, or the byte \<open>0xFF\<close>
  everywhere.
\<close>

definition zeroed :: "nat \<Rightarrow> byte" where
  "zeroed = (\<lambda>p. 0)"

definition ones :: "nat \<Rightarrow> byte" where
  "ones = (\<lambda>p. 0xFF)"

text \<open>
  The one routine that the specification asks for in place of the two formulas: bytes
  from 2-bit chunks, four chunks to a byte, most significant pair first; a 32-bit length
  is the big-endian value \<open>be32_val\<close> of four such bytes.
\<close>

fun chunks_to_bytes :: "byte list \<Rightarrow> byte list" where
  "chunks_to_bytes (c0 # c1 # c2 # c3 # cs) = assemble c0 c1 c2 c3 # chunks_to_bytes cs"
| "chunks_to_bytes cs = []"

text \<open>The \<open>n\<close> chunks of an image from chunk number \<open>m\<close> on.\<close>

definition image_chunks :: "png \<Rightarrow> nat \<Rightarrow> nat \<Rightarrow> byte list" where
  "image_chunks g m n = map (\<lambda>j. smp g (2 * j) AND 3) [m..<m + n]"

section \<open>Images and files of the examples\<close>

text \<open>An RGBA image of 4 by 3 pixels, all samples 0.\<close>

definition png_4x3 :: png where
  "png_4x3 = \<lparr>width = 4, height = 3, color_type = PNG_COLOR_TYPE_RGBA,
              row_pointers = replicate 3 (replicate 16 0)\<rparr>"

text \<open>
  What \<^verbatim>\<open>write_data\<close> makes of \<open>png_4x3\<close> with the file name \<open>a\<close> and an empty file.
\<close>

definition png_4x3_a :: png where
  "png_4x3_a = \<lparr>width = 4, height = 3, color_type = PNG_COLOR_TYPE_RGBA,
     row_pointers =
       [[0, 0, 0, 0, 0, 0, 0, 0, 0, 0, 0, 0, 0, 0, 0, 0],
        [0, 0, 0, 0, 1, 0, 0, 0, 0, 0, 0, 0, 0, 0, 0, 0],
        [0, 0, 0, 0, 0, 0, 0, 0, 0, 0, 1, 0, 2, 0, 1, 0]]\<rparr>"

text \<open>
  A 4 by 3 RGBA image (72 bits of capacity) whose first 64 bits hold the lengths 1 and
  \<open>2 ^ 29\<close>, followed by the byte \<open>0x61\<close>.
\<close>

definition png_4x3_wrap :: png where
  "png_4x3_wrap = \<lparr>width = 4, height = 3, color_type = PNG_COLOR_TYPE_RGBA,
     row_pointers =
       [[0, 0, 0, 0, 0, 0, 0, 0, 0, 0, 0, 0, 0, 0, 0, 0],
        [0, 0, 0, 0, 1, 0, 2, 0, 0, 0, 0, 0, 0, 0, 0, 0],
        [0, 0, 0, 0, 0, 0, 0, 0, 0, 0, 1, 0, 2, 0, 1, 0]]\<rparr>"

text \<open>The same with the lengths 1 and 1.\<close>

definition png_4x3_long :: png where
  "png_4x3_long = \<lparr>width = 4, height = 3, color_type = PNG_COLOR_TYPE_RGBA,
     row_pointers =
       [[0, 0, 0, 0, 0, 0, 0, 0, 0, 0, 0, 0, 0, 0, 0, 0],
        [0, 0, 0, 0, 1, 0, 0, 0, 0, 0, 0, 0, 0, 0, 0, 0],
        [0, 0, 0, 0, 0, 0, 0, 0, 0, 1, 1, 0, 2, 0, 1, 0]]\<rparr>"

text \<open>An RGBA image of 4 by 4 pixels (96 bits of capacity), all samples 0.\<close>

definition png_4x4 :: png where
  "png_4x4 = \<lparr>width = 4, height = 4, color_type = PNG_COLOR_TYPE_RGBA,
              row_pointers = replicate 4 (replicate 16 0)\<rparr>"

text \<open>
  What \<^verbatim>\<open>write_data\<close> makes of \<open>png_4x4\<close> with the file name \<open>a\<close> and a file that
  holds the one byte \<open>b\<close>.
\<close>

definition png_4x4_ab :: png where
  "png_4x4_ab = \<lparr>width = 4, height = 4, color_type = PNG_COLOR_TYPE_RGBA,
     row_pointers =
       [[0, 0, 0, 0, 0, 0, 0, 0, 0, 0, 0, 0, 0, 0, 0, 0],
        [0, 0, 0, 0, 1, 0, 0, 0, 0, 0, 0, 0, 0, 0, 0, 0],
        [0, 0, 0, 0, 0, 0, 0, 0, 0, 1, 1, 0, 2, 0, 1, 0],
        [1, 2, 0, 0, 2, 0, 0, 0, 0, 0, 0, 0, 0, 0, 0, 0]]\<rparr>"

text \<open>
  The same two low bits in every sample other than byte 3 of a pixel, with the six high
  bits of every sample set and every alpha sample \<open>0xFF\<close>.
\<close>

definition png_4x4_ab_hi :: png where
  "png_4x4_ab_hi = \<lparr>width = 4, height = 4, color_type = PNG_COLOR_TYPE_RGBA,
     row_pointers =
       [[0xFC, 0xFC, 0xFC, 0xFF, 0xFC, 0xFC, 0xFC, 0xFF,
         0xFC, 0xFC, 0xFC, 0xFF, 0xFC, 0xFC, 0xFC, 0xFF],
        [0xFC, 0xFC, 0xFC, 0xFF, 0xFD, 0xFC, 0xFC, 0xFF,
         0xFC, 0xFC, 0xFC, 0xFF, 0xFC, 0xFC, 0xFC, 0xFF],
        [0xFC, 0xFC, 0xFC, 0xFF, 0xFC, 0xFC, 0xFC, 0xFF,
         0xFC, 0xFD, 0xFD, 0xFF, 0xFE, 0xFC, 0xFD, 0xFF],
        [0xFD, 0xFE, 0xFC, 0xFF, 0xFE, 0xFC, 0xFC, 0xFF,
         0xFC, 0xFC, 0xFC, 0xFF, 0xFC, 0xFC, 0xFC, 0xFF]]\<rparr>"

text \<open>
  The example of the specification: an RGB image of 10 by 10 pixels (600 bits, 75
  bytes of capacity), here with all samples 0, and the file name \<open>a.txt\<close>.
\<close>

definition png_10x10 :: png where
  "png_10x10 = \<lparr>width = 10, height = 10, color_type = PNG_COLOR_TYPE_RGB,
                row_pointers = replicate 10 (replicate 30 0)\<rparr>"

definition a_txt :: "byte list" where
  "a_txt = [0x61, 0x2E, 0x74, 0x78, 0x74]"

text \<open>An RGB image of 30000 by 30000 pixels, all samples 0.\<close>

definition png_30000 :: png where
  "png_30000 = \<lparr>width = 30000, height = 30000, color_type = PNG_COLOR_TYPE_RGB,
                row_pointers = replicate 30000 (replicate 90000 0)\<rparr>"

text \<open>A file of \<open>2 ^ 29\<close> bytes, all \<open>0xFF\<close>.\<close>

definition file_512M :: "byte list" where
  "file_512M = replicate 536870912 0xFF"

section \<open>Bits of bytes and words\<close>

lemma bit_3_iff: "bit (3::int) n \<longleftrightarrow> n < 2"
proof -
  have *: "(3::int) = mask 2" by (simp add: mask_eq_exp_minus_1)
  show ?thesis unfolding * by (simp add: bit_simps)
qed

lemma bit_255_iff: "bit (255::int) n \<longleftrightarrow> n < 8"
proof -
  have *: "(255::int) = mask 8" by (simp add: mask_eq_exp_minus_1)
  show ?thesis unfolding * by (simp add: bit_simps)
qed

lemma bit_252_iff: "bit (252::int) n \<longleftrightarrow> 2 \<le> n \<and> n < 8"
proof -
  have *: "(252::int) = push_bit 2 (mask 6)" by (simp add: mask_eq_exp_minus_1 push_bit_eq_mult)
  show ?thesis unfolding * by (auto simp add: bit_simps)
qed

lemma data_chunk_of_eq: "bo \<le> 6 \<Longrightarrow> data_chunk_of d bo = drop_bit bo d AND 3"
  unfolding data_chunk_of_def
  by (rule bit_word_eqI) (auto simp: bit_simps bit_3_iff)

lemma data_chunk_of_le3: "data_chunk_of d bo AND 0xFC = 0"
  unfolding data_chunk_of_def
  apply (rule bit_word_eqI) 
  apply (auto simp: bit_simps bit_3_iff bit_252_iff)
  done

lemma low2_set: "c AND 0xFC = 0 \<Longrightarrow> ((s AND 0xFC) OR c) AND 3 = (c::byte)"
  apply (rule bit_word_eqI)
  apply (auto simp: bit_simps bit_eq_iff bit_3_iff bit_252_iff)
  done

lemma top6_set: "c AND 0xFC = 0 \<Longrightarrow> ((s AND 0xFC) OR c) AND 0xFC = (s::byte) AND 0xFC"
  apply (rule bit_word_eqI)
  apply (auto simp: bit_simps bit_eq_iff  bit_3_iff bit_252_iff)
  done

lemma file_size_byte_eq: "i < 4 \<Longrightarrow> file_size_byte v i = ucast (drop_bit (i * 8) v)"
  unfolding file_size_byte_def
  apply (rule bit_word_eqI)
  apply (auto simp: bit_simps bit_255_iff)
  done

lemma filename_length_byte_eq: "i < 4 \<Longrightarrow> filename_length_byte v i = ucast (drop_bit (i * 8) v)"
  unfolding filename_length_byte_def
  apply (rule bit_word_eqI)
  apply (auto simp: bit_simps bit_255_iff min_def)
  done

section \<open>The channel address\<close>

lemma locate_slot:
  "locate (2 * n) w = (n div 3 div w, n div 3 mod w, n mod 3)"
proof -
  have "(2 * n) div 6 = n div 3" by (simp add: div_mult2_eq [symmetric])
  then show ?thesis by (simp add: locate_def Let_def)
qed

section \<open>The two writing loops as one\<close>

lemma write_sig_loop_put:
  "write_sig_loop g signature sig_size i =
     put_chunks g (stream_chunk signature) (sig_size * 8) i"
proof (induction g signature sig_size i rule: write_sig_loop.induct)
  case (1 g signature sig_size i)
  show ?case
  proof (cases "i < sig_size * 8")
    case False
    then show ?thesis
      by (simp add: write_sig_loop.simps [of g] put_chunks.simps [of g])
  next
    case True
    show ?thesis
    proof (cases "set_chunk g i (stream_chunk signature i)")
      case (Inl e)
      then show ?thesis using True
        by (simp add: write_sig_loop.simps [of g] put_chunks.simps [of g]
            stream_chunk_def)
    next
      case (Inr g')
      then have "write_sig_loop g' signature sig_size (i + 2) =
          put_chunks g' (stream_chunk signature) (sig_size * 8) (i + 2)"
        using 1 [OF True refl refl, of g'] by (simp add: stream_chunk_def)
      then show ?thesis using True Inr
        by (simp add: write_sig_loop.simps [of g] put_chunks.simps [of g]
            stream_chunk_def)
    qed
  qed
qed

lemma put_chunks_cong:
  "(\<And>j. i \<le> j \<Longrightarrow> j < n \<Longrightarrow> f j = f' j) \<Longrightarrow> put_chunks g f n i = put_chunks g f' n i"
proof (induction g f n i rule: put_chunks.induct)
  case (1 g f n i)
  show ?case
    apply (subst put_chunks.simps)
    apply (subst (2) put_chunks.simps)
    using 1 by (auto split: sum.splits)
qed

lemma put_chunks_split:
  "m = i + 2 * k \<Longrightarrow> m \<le> n \<Longrightarrow>
   put_chunks g f n i =
     (case put_chunks g f m i of Inl e \<Rightarrow> Inl e | Inr g' \<Rightarrow> put_chunks g' f n m)"
proof (induction k arbitrary: g i)
  case 0
  then show ?case by (simp add: put_chunks.simps [of g f i i])
next
  case (Suc k)
  have lt: "i < m" "i < n" using Suc.prems by simp_all
  show ?case
  proof (cases "set_chunk g i (f i)")
    case (Inl e)
    then show ?thesis using lt
      by (simp add: put_chunks.simps [of g f n i] put_chunks.simps [of g f m i])
  next
    case (Inr g1)
    have "put_chunks g1 f n (i + 2) =
       (case put_chunks g1 f m (i + 2) of Inl e \<Rightarrow> Inl e | Inr g' \<Rightarrow> put_chunks g' f n m)"
      by (rule Suc.IH) (use Suc.prems in simp_all)
    then show ?thesis using lt Inr
      by (simp add: put_chunks.simps [of g f n i] put_chunks.simps [of g f m i])
  qed
qed

lemma fread1_fst: "fst (fread1 file pos d) = (if pos < length file then file ! pos else d)"
  and fread1_snd: "snd (fread1 file pos d) = (if pos < length file then pos + 1 else pos)"
  by (simp_all add: fread1_def)

lemma mod8_slot: "r < 4 \<Longrightarrow> (8 * k + 2 * r) mod 8 = 2 * (r::nat)"
  by simp

lemma div8_slot: "r < 4 \<Longrightarrow> (8 * k + 2 * r) div 8 = (k::nat)"
  by simp

lemma write_file_loop_put:
  "i = 8 * s + 8 * q + 2 * r \<Longrightarrow> r < 4 \<Longrightarrow> req \<le> 8 * s + 8 * length fb \<Longrightarrow>
   (i < req \<Longrightarrow> d = fb ! q \<and> pos = q + 1) \<Longrightarrow>
   write_file_loop g fb pos d req i =
     put_chunks g (\<lambda>j. data_chunk_of (fb ! ((j - 8 * s) div 8)) (6 - j mod 8)) req i"
proof (induction g fb pos d req i arbitrary: q r rule: write_file_loop.induct)
  case (1 g fb pos d req i)
  let ?f = "\<lambda>j. data_chunk_of (fb ! ((j - 8 * s) div 8)) (6 - j mod 8)"
  have i8: "i = 8 * (s + q) + 2 * r" using 1(3) by simp
  have im: "i mod 8 = 2 * r" unfolding i8 using 1(4) by (rule mod8_slot)
  have "i - 8 * s = 8 * q + 2 * r" using 1(3) by simp
  then have iq: "(i - 8 * s) div 8 = q" using 1(4) by (simp only: div8_slot)
  show ?case
  proof (cases "i < req")
    case False
    then show ?thesis
      by (simp add: write_file_loop.simps [of g fb pos d req i] put_chunks.simps [of g ?f req i])
  next
    case True
    have d: "d = fb ! q" and pos: "pos = q + 1"
      using 1(6) [OF True] by simp_all
    have fi: "?f i = data_chunk_of d (6 - i mod 8)" using iq d by simp
    show ?thesis
    proof (cases "set_chunk g i (data_chunk_of d (6 - i mod 8))")
      case (Inl e)
      then show ?thesis using True
        unfolding write_file_loop.simps [of g fb pos d req i] put_chunks.simps [of g ?f req i] fi
        by simp
    next
      case sc: (Inr g')
      show ?thesis
      proof (cases "6 - i mod 8 = 0")
        case z: True
        have r3: "r = 3" using z im 1(4) by simp
        have nxt: "i + 2 = 8 * s + 8 * (q + 1) + 2 * 0" using 1(3) r3 by simp
        have "write_file_loop g' fb (snd (fread1 fb pos d)) (fst (fread1 fb pos d)) req (i + 2) =
              put_chunks g' ?f req (i + 2)"
        proof (rule 1(1) [OF True refl sc z nxt _ 1(5)])
          assume lt: "i + 2 < req"
          then have "pos < length fb" using nxt 1(5) pos by simp
          then show "fst (fread1 fb pos d) = fb ! (q + 1) \<and>
                     snd (fread1 fb pos d) = q + 1 + 1"
            using pos by (simp add: fread1_fst fread1_snd)
        qed simp
        then show ?thesis using True sc z
          unfolding write_file_loop.simps [of g fb pos d req i] put_chunks.simps [of g ?f req i] fi
          by simp
      next
        case nz: False
        have r3: "r < 3" using nz im 1(4) by simp
        have nxt: "i + 2 = 8 * s + 8 * q + 2 * (r + 1)" using 1(3) by simp
        have "write_file_loop g' fb pos d req (i + 2) = put_chunks g' ?f req (i + 2)"
          by (rule 1(2) [OF True refl sc nz nxt _ 1(5)]) (use r3 d pos in simp_all)
        then show ?thesis using True sc nz
          unfolding write_file_loop.simps [of g fb pos d req i] put_chunks.simps [of g ?f req i] fi
          by simp
      qed
    qed
  qed
qed

lemma unat_size8_le: "unat ((of_nat n :: uint32) * 8) \<le> 8 * n"
proof -
  have "unat ((of_nat n :: uint32) * 8) = (n * 8) mod 2 ^ 32"
    by (simp add: unat_word_ariths unat_of_nat mod_mult_left_eq)
  then show ?thesis by (metis mod_less_eq_dividend mult.commute)
qed

lemma length_generate_signature: "length (generate_signature fn sz) = 8 + length fn"
  by (simp add: generate_signature_def Let_def)

lemma write_data_put:
  "write_data g fn file =
     (if required_data_bits fn file > width g * height g * 6
      then Inl (PngTooSmall (required_data_bits fn file div 8) (width g * height g * 6 div 8))
      else put_chunks g
             (stream_chunk (generate_signature fn (of_nat (length file)) @ file))
             (required_data_bits fn file) 0)"
proof -
  let ?sig = "generate_signature fn (of_nat (length file))"
  let ?n = "8 + length fn"
  let ?s = "?n * 8"
  let ?req = "required_data_bits fn file"
  let ?F = "stream_chunk (?sig @ file)"
  let ?d0 = "?sig ! (?n - 1)"
  have len: "length ?sig = ?n" by (rule length_generate_signature)
  have req: "?req \<le> 8 * ?n + 8 * length file"
    using unat_size8_le [of "length file"] by (simp add: required_data_bits_def)
  have sle: "?s \<le> ?req" by (simp add: required_data_bits_def)
  have A: "write_sig_loop g ?sig ?n 0 = put_chunks g ?F ?s 0" for g
    unfolding write_sig_loop_put
  proof (rule put_chunks_cong)
    fix j assume "j < ?n * 8"
    then have "j div 8 < length ?sig" unfolding len by (rule less_mult_imp_div_less)
    then show "stream_chunk ?sig j = ?F j"
      by (simp add: stream_chunk_def nth_append)
  qed
  have B: "write_file_loop g' file (snd (fread1 file 0 ?d0)) (fst (fread1 file 0 ?d0)) ?req ?s
      = put_chunks g' ?F ?req ?s" for g'
  proof -
    have "write_file_loop g' file (snd (fread1 file 0 ?d0)) (fst (fread1 file 0 ?d0)) ?req ?s
      = put_chunks g' (\<lambda>j. data_chunk_of (file ! ((j - 8 * ?n) div 8)) (6 - j mod 8)) ?req ?s"
    proof (rule write_file_loop_put [where q = 0 and r = 0, OF _ _ req])
      assume "?s < ?req"
      then have "0 < length file" using req by (cases "file") simp_all
      then show "fst (fread1 file 0 ?d0) = file ! 0 \<and> snd (fread1 file 0 ?d0) = 0 + 1"
        by (simp add: fread1_fst fread1_snd)
    qed simp_all
    also have "\<dots> = put_chunks g' ?F ?req ?s"
    proof (rule put_chunks_cong)
      fix j assume j: "?s \<le> j" "j < ?req"
      then obtain t where t: "j = 8 * ?n + t" by (metis le_iff_add mult.commute)
      have "j div 8 = length ?sig + (j - 8 * ?n) div 8" unfolding len t by simp
      then show "data_chunk_of (file ! ((j - 8 * ?n) div 8)) (6 - j mod 8) = ?F j"
        by (simp add: stream_chunk_def nth_append)
    qed
    finally show ?thesis .
  qed
  have C: "put_chunks g ?F ?req 0 =
     (case put_chunks g ?F ?s 0 of Inl e \<Rightarrow> Inl e | Inr g' \<Rightarrow> put_chunks g' ?F ?req ?s)"
    by (rule put_chunks_split [where k = "4 * ?n"]) (use sle in simp_all)
  show ?thesis
    unfolding write_data_def Let_def A B C required_data_bits_def [symmetric]
    by simp
qed


section \<open>Images of the same shape\<close>

lemma same_shape_refl: "same_shape g g"
  by (simp add: same_shape_def)

lemma same_shape_trans: "same_shape g g1 \<Longrightarrow> same_shape g1 g2 \<Longrightarrow> same_shape g g2"
  by (simp add: same_shape_def)

lemma same_shape_lengths:
  assumes "same_shape g g'"
  shows "length (row_pointers g') = length (row_pointers g)"
    and "y < length (row_pointers g) \<Longrightarrow> length (row_pointers g' ! y) = length (row_pointers g ! y)"
proof -
  have m: "map length (row_pointers g') = map length (row_pointers g)"
    using assms by (simp add: same_shape_def)
  show l: "length (row_pointers g') = length (row_pointers g)"
    using m by (metis length_map)
  show "length (row_pointers g' ! y) = length (row_pointers g ! y)" if "y < length (row_pointers g)"
    using m l that by (metis nth_map)
qed

lemma same_shape_in_png: "same_shape g g' \<Longrightarrow> in_png g' y k = in_png g y k"
  using same_shape_lengths [of g g'] by (auto simp: in_png_def)

lemma same_shape_sample_addr: "same_shape g g' \<Longrightarrow> sample_addr g' i = sample_addr g i"
  using same_shape_lengths [of g g']
  by (auto simp: sample_addr_def same_shape_def Let_def split: prod.splits)

lemma same_shape_wf: "same_shape g g' \<Longrightarrow> wf_png g \<Longrightarrow> wf_png g'"
proof -
  assume s: "same_shape g g'" and w: "wf_png g"
  have "length r = width g * channels (color_type g)" if "r \<in> set (row_pointers g')" for r
  proof -
    from that obtain y where y: "y < length (row_pointers g')" "r = row_pointers g' ! y"
      by (metis in_set_conv_nth)
    then have "y < length (row_pointers g)" using same_shape_lengths(1) [OF s] by simp
    then show ?thesis using y same_shape_lengths(2) [OF s, of y] w
      by (simp add: wf_png_def)
  qed
  then show ?thesis using s w same_shape_lengths(1) [OF s]
    by (simp add: wf_png_def same_shape_def)
qed

lemma sample_addr_in_png: "sample_addr g i = Inr (y, k) \<Longrightarrow> in_png g y k"
  by (auto simp: sample_addr_def in_png_def Let_def split: prod.splits if_splits)

lemma set_chunk_Inr:
  assumes "set_chunk g i c = Inr g'"
  obtains y k where "sample_addr g i = Inr (y, k)"
    and "g' = g\<lparr>row_pointers := (row_pointers g)[y := (row_pointers g ! y)[k := (px g y k AND 0xFC) OR c]]\<rparr>"
  using assms by (auto simp: set_chunk_def px_def split: sum.splits)

lemma set_chunk_shape: "set_chunk g i c = Inr g' \<Longrightarrow> same_shape g g'"
proof (erule set_chunk_Inr)
  fix y k
  assume g': "g' = g\<lparr>row_pointers := (row_pointers g)[y := (row_pointers g ! y)[k := (px g y k AND 0xFC) OR c]]\<rparr>"
  have "(map length (row_pointers g))[y := length (row_pointers g ! y)] = map length (row_pointers g)"
    by (metis list_update_id map_update)
  then show ?thesis unfolding g' by (simp add: same_shape_def map_update)
qed

lemma set_chunk_px:
  assumes "set_chunk g i c = Inr g'" and "sample_addr g i = Inr (y, k)" and "in_png g y' k'"
  shows "px g' y' k' = (if y' = y \<and> k' = k then (px g y k AND 0xFC) OR c else px g y' k')"
proof -
  from assms(1) obtain y0 k0 where a: "sample_addr g i = Inr (y0, k0)"
    and g': "g' = g\<lparr>row_pointers := (row_pointers g)[y0 := (row_pointers g ! y0)[k0 := (px g y0 k0 AND 0xFC) OR c]]\<rparr>"
    by (rule set_chunk_Inr)
  have yk: "y0 = y" "k0 = k" using a assms(2) by simp_all
  have "in_png g y k" using assms(2) by (rule sample_addr_in_png)
  then show ?thesis using assms(3) unfolding g' yk
    by (auto simp add: px_def in_png_def nth_list_update)
qed


section \<open>What the writing loop changes\<close>

lemma channels_ge3: "3 \<le> channels c"
  by (cases c) (simp_all add: channels_def)

lemma sample_addr_slot:
  assumes "sample_addr g (2 * n) = Inr (y, k)"
  shows "0 < width g" and "y = n div 3 div width g"
    and "k div channels (color_type g) = n div 3 mod width g"
    and "k mod channels (color_type g) = n mod 3"
proof -
  let ?c = "channels (color_type g)"
  have c: "n mod 3 < ?c" using channels_ge3 [of "color_type g"]
    by (meson less_le_trans mod_less_divisor zero_less_numeral)
  have *: "0 < width g \<and> y = n div 3 div width g \<and> k = (n div 3 mod width g) * ?c + n mod 3"
    using assms unfolding sample_addr_def locate_slot
    by (auto simp: Let_def split: if_splits)
  show "0 < width g" "y = n div 3 div width g" using * by simp_all
  show "k div ?c = n div 3 mod width g" using * c by simp
  show "k mod ?c = n mod 3" using * c by simp
qed

lemma sample_addr_inj:
  assumes "sample_addr g (2 * n) = Inr a" and "sample_addr g (2 * m) = Inr a"
  shows "n = m"
proof -
  obtain y k where a: "a = (y, k)" by (cases a)
  note n = sample_addr_slot [OF assms(1) [unfolded a]]
  note m = sample_addr_slot [OF assms(2) [unfolded a]]
  have "n div 3 = m div 3"
    using n(2,3) m(2,3) by (metis div_mult_mod_eq)
  moreover have "n mod 3 = m mod 3" using n(4) m(4) by simp
  ultimately show ?thesis by (metis div_mult_mod_eq)
qed

lemma put_chunks_shape: "put_chunks g f N i = Inr g' \<Longrightarrow> same_shape g g'"
proof (induction g f N i rule: put_chunks.induct)
  case (1 g f N i)
  show ?case
  proof (cases "i < N")
    case False
    then show ?thesis using 1(2) by (simp add: put_chunks.simps [of g f N i] same_shape_refl)
  next
    case True
    then obtain g1 where g1: "set_chunk g i (f i) = Inr g1" and r: "put_chunks g1 f N (i + 2) = Inr g'"
      using 1(2) by (simp add: put_chunks.simps [of g f N i] split: sum.splits)
    show ?thesis
      using set_chunk_shape [OF g1] 1(1) [OF True g1 r] by (rule same_shape_trans)
  qed
qed

lemma put_chunks_top6:
  "put_chunks g f N i = Inr g' \<Longrightarrow> (\<And>j. f j AND 0xFC = 0) \<Longrightarrow> in_png g y k \<Longrightarrow>
   px g' y k AND 0xFC = px g y k AND 0xFC"
proof (induction g f N i rule: put_chunks.induct)
  case (1 g f N i)
  show ?case
  proof (cases "i < N")
    case False
    then show ?thesis using 1(2) by (simp add: put_chunks.simps [of g f N i])
  next
    case True
    then obtain g1 where g1: "set_chunk g i (f i) = Inr g1" and r: "put_chunks g1 f N (i + 2) = Inr g'"
      using 1(2) by (simp add: put_chunks.simps [of g f N i] split: sum.splits)
    obtain y0 k0 where a: "sample_addr g i = Inr (y0, k0)" using g1 by (rule set_chunk_Inr)
    have in1: "in_png g1 y k" using same_shape_in_png [OF set_chunk_shape [OF g1]] 1(4) by simp
    have "px g' y k AND 0xFC = px g1 y k AND 0xFC"
      by (rule 1(1) [OF True g1 r 1(3) in1])
    also have "\<dots> = px g y k AND 0xFC"
      unfolding set_chunk_px [OF g1 a 1(4)] using top6_set [OF 1(3) [of i]] by simp
    finally show ?thesis .
  qed
qed

lemma put_chunks_untouched:
  "put_chunks g f N i = Inr g' \<Longrightarrow> i = 2 * n \<Longrightarrow> in_png g y k \<Longrightarrow>
   (\<And>m. n \<le> m \<Longrightarrow> 2 * m < N \<Longrightarrow> sample_addr g (2 * m) \<noteq> Inr (y, k)) \<Longrightarrow>
   px g' y k = px g y k"
proof (induction g f N i arbitrary: n rule: put_chunks.induct)
  case (1 g f N i)
  show ?case
  proof (cases "i < N")
    case False
    then show ?thesis using 1(2) by (simp add: put_chunks.simps [of g f N i])
  next
    case True
    then obtain g1 where g1: "set_chunk g i (f i) = Inr g1" and r: "put_chunks g1 f N (i + 2) = Inr g'"
      using 1(2) by (simp add: put_chunks.simps [of g f N i] split: sum.splits)
    obtain y0 k0 where a: "sample_addr g i = Inr (y0, k0)" using g1 by (rule set_chunk_Inr)
    have sh: "same_shape g g1" using g1 by (rule set_chunk_shape)
    have in1: "in_png g1 y k" using same_shape_in_png [OF sh] 1(4) by simp
    have ne: "(y0, k0) \<noteq> (y, k)" using 1(5) [of n] True a 1(3) by auto
    have "px g' y k = px g1 y k"
    proof (rule 1(1) [OF True g1 r _ in1])
      show "i + 2 = 2 * (n + 1)" using 1(3) by simp
      fix m assume "n + 1 \<le> m" "2 * m < N"
      then show "sample_addr g1 (2 * m) \<noteq> Inr (y, k)"
        unfolding same_shape_sample_addr [OF sh] using 1(5) [of m] by simp
    qed
    also have "\<dots> = px g y k"
      unfolding set_chunk_px [OF g1 a 1(4)] using ne by auto
    finally show ?thesis .
  qed
qed

lemma put_chunks_touched:
  "put_chunks g f N i = Inr g' \<Longrightarrow> i = 2 * n \<Longrightarrow> n \<le> m \<Longrightarrow> 2 * m < N \<Longrightarrow>
   \<exists>y k. sample_addr g (2 * m) = Inr (y, k) \<and> px g' y k = (px g y k AND 0xFC) OR f (2 * m)"
proof (induction g f N i arbitrary: n rule: put_chunks.induct)
  case (1 g f N i)
  have True: "i < N" using 1(3,4,5) by simp
  then obtain g1 where g1: "set_chunk g i (f i) = Inr g1" and r: "put_chunks g1 f N (i + 2) = Inr g'"
    using 1(2) by (simp add: put_chunks.simps [of g f N i] split: sum.splits)
  obtain y0 k0 where a: "sample_addr g i = Inr (y0, k0)" using g1 by (rule set_chunk_Inr)
  have sh: "same_shape g g1" using g1 by (rule set_chunk_shape)
  have in0: "in_png g y0 k0" using a by (rule sample_addr_in_png)
  have nxt: "i + 2 = 2 * (n + 1)" using 1(3) by simp
  show ?case
  proof (cases "m = n")
    case eq: True
    have in1: "in_png g1 y0 k0" using same_shape_in_png [OF sh] in0 by simp
    have "px g' y0 k0 = px g1 y0 k0"
    proof (rule put_chunks_untouched [OF r nxt in1])
      fix m' assume m': "n + 1 \<le> m'"
      show "sample_addr g1 (2 * m') \<noteq> Inr (y0, k0)"
      proof
        assume "sample_addr g1 (2 * m') = Inr (y0, k0)"
        then have "sample_addr g (2 * m') = Inr (y0, k0)"
          unfolding same_shape_sample_addr [OF sh] .
        then have "m' = n" using a unfolding 1(3) by (rule sample_addr_inj)
        then show False using m' by simp
      qed
    qed
    also have "\<dots> = (px g y0 k0 AND 0xFC) OR f i"
      unfolding set_chunk_px [OF g1 a in0] by simp
    finally show ?thesis using a eq 1(3) by auto
  next
    case False
    then have le: "n + 1 \<le> m" using 1(4) by simp
    obtain y k where b: "sample_addr g1 (2 * m) = Inr (y, k)"
      and v: "px g' y k = (px g1 y k AND 0xFC) OR f (2 * m)"
      using 1(1) [OF True g1 r nxt le 1(5)] by auto
    have b': "sample_addr g (2 * m) = Inr (y, k)"
      using b unfolding same_shape_sample_addr [OF sh] .
    have ne: "(y, k) \<noteq> (y0, k0)"
    proof
      assume "(y, k) = (y0, k0)"
      then have "m = n" using sample_addr_inj [of g m "(y0, k0)" n] b' a 1(3) by simp
      then show False using False by simp
    qed
    have "px g1 y k = px g y k"
      unfolding set_chunk_px [OF g1 a sample_addr_in_png [OF b']] using ne by auto
    then show ?thesis using b' v by auto
  qed
qed

lemma wf_sample_addr_in:
  assumes "wf_png g" and "i < width g * height g * 6"
  shows "\<exists>y k. sample_addr g i = Inr (y, k)"
proof -
  let ?w = "width g" and ?c = "channels (color_type g)"
  have w: "0 < ?w" and len: "length (row_pointers g) = height g"
    and rows: "\<And>r. r \<in> set (row_pointers g) \<Longrightarrow> length r = ?w * ?c"
    using assms(1) by (auto simp: wf_png_def)
  have "i div 6 < height g * ?w" using assms(2) by (simp add: less_mult_imp_div_less mult.commute)
  then have y: "i div 6 div ?w < height g" by (rule less_mult_imp_div_less)
  then have lr: "length (row_pointers g ! (i div 6 div ?w)) = ?w * ?c"
    using rows len by simp
  have x: "i div 6 mod ?w < ?w" using w by simp
  have c: "i div 2 mod 3 < ?c" using channels_ge3 [of "color_type g"]
    by (meson less_le_trans mod_less_divisor zero_less_numeral)
  have "(i div 6 mod ?w) * ?c + i div 2 mod 3 < (i div 6 mod ?w + 1) * ?c" using c by simp
  also have "\<dots> \<le> ?w * ?c" using x by (intro mult_le_mono1) simp
  finally have k: "(i div 6 mod ?w) * ?c + i div 2 mod 3 < ?w * ?c" .
  show ?thesis using w y k lr len
    by (simp add: sample_addr_def locate_def Let_def)
qed

lemma wf_sample_addr_out:
  assumes "wf_png g" and "width g * height g * 6 \<le> i"
  shows "sample_addr g i = Inl OutOfBounds"
proof -
  let ?w = "width g"
  have w: "0 < ?w" and len: "length (row_pointers g) = height g"
    using assms(1) by (auto simp: wf_png_def)
  have "(height g * ?w * 6) div 6 \<le> i div 6" using assms(2)
    by (intro div_le_mono) (simp add: mult.commute)
  then have "height g * ?w \<le> i div 6" by simp
  then have "(height g * ?w) div ?w \<le> i div 6 div ?w" by (rule div_le_mono)
  then have "height g \<le> i div 6 div ?w" using w by simp
  then show ?thesis using w len
    by (simp add: sample_addr_def locate_def Let_def)
qed

lemma put_chunks_ok:
  "wf_png g \<Longrightarrow> N \<le> width g * height g * 6 \<Longrightarrow> \<exists>g'. put_chunks g f N i = Inr g'"
proof (induction g f N i rule: put_chunks.induct)
  case (1 g f N i)
  show ?case
  proof (cases "i < N")
    case False
    then show ?thesis by (simp add: put_chunks.simps [of g f N i])
  next
    case True
    then have "i < width g * height g * 6" using 1(3) by simp
    then obtain y k where a: "sample_addr g i = Inr (y, k)"
      using wf_sample_addr_in [OF 1(2)] by blast
    then obtain g1 where g1: "set_chunk g i (f i) = Inr g1"
      by (simp add: set_chunk_def)
    have sh: "same_shape g g1" using g1 by (rule set_chunk_shape)
    have "\<exists>g'. put_chunks g1 f N (i + 2) = Inr g'"
    proof (rule 1(1) [OF True g1])
      show "wf_png g1" using sh 1(2) by (rule same_shape_wf)
      show "N \<le> width g1 * height g1 * 6" using sh 1(3) by (simp add: same_shape_def)
    qed
    then show ?thesis using True g1 by (simp add: put_chunks.simps [of g f N i])
  qed
qed


section \<open>Reassembling bytes from chunks\<close>

lemma byte_eqI:
  assumes "bit a 0 = bit b 0" "bit a 1 = bit b 1" "bit a 2 = bit b 2" "bit a 3 = bit b 3"
    "bit a 4 = bit b 4" "bit a 5 = bit b 5" "bit a 6 = bit b 6" "bit a 7 = bit b 7"
  shows "a = (b::byte)"
proof (rule bit_word_eqI)
  fix bitno assume "bitno < LENGTH(8)"
  then have "bitno = 0 \<or> bitno = 1 \<or> bitno = 2 \<or> bitno = 3 \<or> bitno = 4 \<or> bitno = 5 \<or> bitno = 6 \<or> bitno = 7"
    by simp linarith
  then show "bit a bitno = bit b bitno" using assms by (elim disjE) simp_all
qed

lemma uint32_eqI:
  assumes "bit a 0 = bit b 0" "bit a 1 = bit b 1" "bit a 2 = bit b 2" "bit a 3 = bit b 3"
    "bit a 4 = bit b 4" "bit a 5 = bit b 5" "bit a 6 = bit b 6" "bit a 7 = bit b 7"
    "bit a 8 = bit b 8" "bit a 9 = bit b 9" "bit a 10 = bit b 10" "bit a 11 = bit b 11"
    "bit a 12 = bit b 12" "bit a 13 = bit b 13" "bit a 14 = bit b 14" "bit a 15 = bit b 15"
    "bit a 16 = bit b 16" "bit a 17 = bit b 17" "bit a 18 = bit b 18" "bit a 19 = bit b 19"
    "bit a 20 = bit b 20" "bit a 21 = bit b 21" "bit a 22 = bit b 22" "bit a 23 = bit b 23"
    "bit a 24 = bit b 24" "bit a 25 = bit b 25" "bit a 26 = bit b 26" "bit a 27 = bit b 27"
    "bit a 28 = bit b 28" "bit a 29 = bit b 29" "bit a 30 = bit b 30" "bit a 31 = bit b 31"
  shows "a = (b::uint32)"
proof (rule bit_word_eqI)
  fix bitno assume "bitno < LENGTH(32)"
  then have "bitno < 8 \<or> (8 \<le> bitno \<and> bitno < 16) \<or> (16 \<le> bitno \<and> bitno < 24) \<or> (24 \<le> bitno \<and> bitno < 32)"
    by simp linarith
  moreover have "bitno = 0 \<or> bitno = 1 \<or> bitno = 2 \<or> bitno = 3 \<or> bitno = 4 \<or> bitno = 5 \<or> bitno = 6 \<or> bitno = 7"
    if "bitno < 8" using that by linarith
  moreover have "bitno = 8 \<or> bitno = 9 \<or> bitno = 10 \<or> bitno = 11 \<or> bitno = 12 \<or> bitno = 13 \<or> bitno = 14 \<or> bitno = 15"
    if "8 \<le> bitno \<and> bitno < 16" using that by linarith
  moreover have "bitno = 16 \<or> bitno = 17 \<or> bitno = 18 \<or> bitno = 19 \<or> bitno = 20 \<or> bitno = 21 \<or> bitno = 22 \<or> bitno = 23"
    if "16 \<le> bitno \<and> bitno < 24" using that by linarith
  moreover have "bitno = 24 \<or> bitno = 25 \<or> bitno = 26 \<or> bitno = 27 \<or> bitno = 28 \<or> bitno = 29 \<or> bitno = 30 \<or> bitno = 31"
    if "24 \<le> bitno \<and> bitno < 32" using that by linarith
  ultimately have "bitno = 0 \<or> bitno = 1 \<or> bitno = 2 \<or> bitno = 3 \<or> bitno = 4 \<or> bitno = 5 \<or> bitno = 6 \<or> bitno = 7
     \<or> bitno = 8 \<or> bitno = 9 \<or> bitno = 10 \<or> bitno = 11 \<or> bitno = 12 \<or> bitno = 13 \<or> bitno = 14 \<or> bitno = 15
     \<or> bitno = 16 \<or> bitno = 17 \<or> bitno = 18 \<or> bitno = 19 \<or> bitno = 20 \<or> bitno = 21 \<or> bitno = 22 \<or> bitno = 23
     \<or> bitno = 24 \<or> bitno = 25 \<or> bitno = 26 \<or> bitno = 27 \<or> bitno = 28 \<or> bitno = 29 \<or> bitno = 30 \<or> bitno = 31"
    by blast
  then show "bit a bitno = bit b bitno" using assms by (elim disjE) simp_all
qed

lemma body_term: "bo \<le> 6 \<Longrightarrow>
   (ucast (push_bit bo ((ucast (s::byte) :: uint32) AND 0x3)) :: byte) = push_bit bo (s AND 3)"
  by (rule bit_word_eqI) (auto simp: bit_simps bit_3_iff)

lemma assemble_chunks:
  "assemble (data_chunk_of d 6) (data_chunk_of d 4) (data_chunk_of d 2) (data_chunk_of d 0) = d"
proof -
  have e: "data_chunk_of d 6 = drop_bit 6 d AND 3" "data_chunk_of d 4 = drop_bit 4 d AND 3"
    "data_chunk_of d 2 = drop_bit 2 d AND 3" "data_chunk_of d 0 = drop_bit 0 d AND 3"
    by (simp_all only: data_chunk_of_eq)
  show ?thesis
    unfolding assemble_def e
    by (rule byte_eqI; simp add: bit_simps bit_3_iff)
qed

lemma be32_val_be32: "be32_val (be32 v) = v"
  unfolding be32_val_def be32_def
  by (rule uint32_eqI; simp add: bit_simps)


section \<open>The reading loops\<close>

lemma read_bytes_loop_step:
  assumes "i < e" and "get_sample g i = Inr s" and "i mod 8 = m" and "m < 6"
  shows "read_bytes_loop g e buf pos i =
         read_bytes_loop g e (buf(pos := buf pos OR push_bit (6 - m) (s AND 3))) pos (i + 2)"
proof -
  have n: "6 - m \<noteq> 0" and l: "6 - m \<le> 6" using assms(4) by simp_all
  show ?thesis
    apply (subst read_bytes_loop.simps)
    apply (simp only: assms(1,2,3) if_True Let_def sum.case n if_False body_term [OF l])
    done
qed

lemma read_bytes_loop_last:
  assumes "i < e" and "get_sample g i = Inr s" and "i mod 8 = 6"
  shows "read_bytes_loop g e buf pos i =
         read_bytes_loop g e (buf(pos := buf pos OR (s AND 3))) (pos + 1) (i + 2)"
proof -
  have b: "(ucast (push_bit 0 ((ucast s :: uint32) AND 0x3)) :: byte) = s AND 3"
    using body_term [of 0 s] by (simp only: push_bit_0_id le0 id_apply)
  have z: "(6::nat) - 6 = 0" by simp
  show ?thesis
    apply (subst read_bytes_loop.simps)
    apply (simp only: assms if_True Let_def sum.case z b refl)
    done
qed

lemma mod8_add: "r < 8 \<Longrightarrow> (8 * q + r) mod 8 = (r::nat)"
  by simp

lemma read_bytes_step:
  assumes r: "\<And>i. i < e \<Longrightarrow> get_sample g i = Inr (smp g i)" and e: "8 * q + 8 \<le> e"
  shows "read_bytes_loop g e buf pos (8 * q) =
         read_bytes_loop g e (buf(pos := buf pos OR byte_at g q)) (pos + 1) (8 * q + 8)"
proof -
  define c0 where "c0 = smp g (8 * q) AND 3"
  define c1 where "c1 = smp g (8 * q + 2) AND 3"
  define c2 where "c2 = smp g (8 * q + 4) AND 3"
  define c3 where "c3 = smp g (8 * q + 6) AND 3"
  define b1 where "b1 = buf(pos := buf pos OR push_bit 6 c0)"
  define b2 where "b2 = b1(pos := b1 pos OR push_bit 4 c1)"
  define b3 where "b3 = b2(pos := b2 pos OR push_bit 2 c2)"
  define b4 where "b4 = b3(pos := b3 pos OR c3)"
  have lt: "8 * q < e" "8 * q + 2 < e" "8 * q + 4 < e" "8 * q + 6 < e" using e by simp_all
  have a: "8 * q + 2 + 2 = 8 * q + 4" "8 * q + 4 + 2 = 8 * q + 6" "8 * q + 6 + 2 = 8 * q + 8"
    by simp_all
  have d: "(6::nat) - 0 = 6" "(6::nat) - 2 = 4" "(6::nat) - 4 = 2" by simp_all
  have m0: "(8 * q) mod 8 = 0" by simp
  have "read_bytes_loop g e buf pos (8 * q) = read_bytes_loop g e b1 pos (8 * q + 2)"
    using read_bytes_loop_step [OF lt(1) r [OF lt(1)] m0, of buf pos]
    unfolding b1_def c0_def d by simp
  also have "\<dots> = read_bytes_loop g e b2 pos (8 * q + 4)"
    using read_bytes_loop_step [OF lt(2) r [OF lt(2)] mod8_add [of 2 q], of b1 pos]
    unfolding b2_def c1_def d a by simp
  also have "\<dots> = read_bytes_loop g e b3 pos (8 * q + 6)"
    using read_bytes_loop_step [OF lt(3) r [OF lt(3)] mod8_add [of 4 q], of b2 pos]
    unfolding b3_def c2_def d a by simp
  also have "\<dots> = read_bytes_loop g e b4 (pos + 1) (8 * q + 8)"
    using read_bytes_loop_last [OF lt(4) r [OF lt(4)] mod8_add [of 6 q], of b3 pos]
    unfolding b4_def c3_def a by simp
  also have "b4 = buf(pos := buf pos OR byte_at g q)"
    unfolding b4_def b3_def b2_def b1_def byte_at_def assemble_def
      c0_def [symmetric] c1_def [symmetric] c2_def [symmetric] c3_def [symmetric]
    by (simp add: or.assoc)
  finally show ?thesis .
qed

lemma read_bytes_loop_end: "\<not> i < e \<Longrightarrow> read_bytes_loop g e buf pos i = Inr buf"
  by (simp add: read_bytes_loop.simps [of g e buf pos i])

lemma read_bytes_loop_bytes:
  assumes r: "\<And>i. i < 8 * (q + n) \<Longrightarrow> get_sample g i = Inr (smp g i)"
  shows "read_bytes_loop g (8 * (q + n)) buf pos (8 * q) =
         Inr (\<lambda>p. if pos \<le> p \<and> p < pos + n then buf p OR byte_at g (q + (p - pos)) else buf p)"
  using r
proof (induction n arbitrary: q buf pos)
  case 0
  have "(\<lambda>p. if pos \<le> p \<and> p < pos + 0 then buf p OR byte_at g (q + (p - pos)) else buf p) = buf"
    by (rule ext) auto
  then show ?case by (simp add: read_bytes_loop_end)
next
  case (Suc n)
  let ?b = "buf(pos := buf pos OR byte_at g q)"
  have e: "8 * (q + Suc n) = 8 * (q + 1 + n)" by simp
  have "read_bytes_loop g (8 * (q + Suc n)) buf pos (8 * q) =
        read_bytes_loop g (8 * (q + Suc n)) ?b (pos + 1) (8 * q + 8)"
    by (rule read_bytes_step [OF Suc.prems]) simp_all
  also have "\<dots> = read_bytes_loop g (8 * (q + 1 + n)) ?b (pos + 1) (8 * (q + 1))"
    by (simp only: e) (simp add: algebra_simps)
  also have "\<dots> = Inr (\<lambda>p. if pos + 1 \<le> p \<and> p < pos + 1 + n
                           then ?b p OR byte_at g (q + 1 + (p - (pos + 1))) else ?b p)"
    by (rule Suc.IH) (use Suc.prems in simp)
  also have "(\<lambda>p. if pos + 1 \<le> p \<and> p < pos + 1 + n
                then ?b p OR byte_at g (q + 1 + (p - (pos + 1))) else ?b p) =
             (\<lambda>p. if pos \<le> p \<and> p < pos + Suc n then buf p OR byte_at g (q + (p - pos)) else buf p)"
  proof (rule ext)
    fix p
    show "(if pos + 1 \<le> p \<and> p < pos + 1 + n
                then ?b p OR byte_at g (q + 1 + (p - (pos + 1))) else ?b p) =
          (if pos \<le> p \<and> p < pos + Suc n then buf p OR byte_at g (q + (p - pos)) else buf p)"
    proof (cases "p = pos")
      case True
      then show ?thesis by simp
    next
      case False
      then have "pos + 1 \<le> p \<longleftrightarrow> pos \<le> p" by auto
      moreover have "q + 1 + (p - (pos + 1)) = q + (p - pos)" if "pos \<le> p"
        using that False by simp
      ultimately show ?thesis using False by auto
    qed
  qed
  finally show ?case .
qed

lemma read_size_loop_step:
  assumes "i < e" and "get_sample g i = Inr s"
  shows "read_size_loop g top_bit e acc i =
         read_size_loop g top_bit e (acc OR push_bit (top_bit - i) ((ucast s :: uint32) AND 0x3)) (i + 2)"
  apply (subst read_size_loop.simps)
  apply (simp only: assms if_True Let_def sum.case)
  done

lemma read_size_loop_end: "\<not> i < e \<Longrightarrow> read_size_loop g top_bit e acc i = Inr acc"
  by (simp add: read_size_loop.simps [of g top_bit e acc i])

lemma size_term4:
  assumes "b = 0 \<or> b = 8 \<or> b = 16 \<or> b = 24"
  shows "(((acc OR push_bit (b + 6) ((ucast (s0::byte) :: uint32) AND 0x3))
       OR push_bit (b + 4) ((ucast (s1::byte) :: uint32) AND 0x3))
       OR push_bit (b + 2) ((ucast (s2::byte) :: uint32) AND 0x3))
       OR push_bit b ((ucast (s3::byte) :: uint32) AND 0x3)
   = acc OR push_bit b (ucast (assemble (s0 AND 3) (s1 AND 3) (s2 AND 3) (s3 AND 3)))"
  using assms unfolding assemble_def
  apply (elim disjE)
     apply (hypsubst, rule uint32_eqI; (simp only: bit_simps)?; simp add: bit_3_iff)
    apply (hypsubst, rule uint32_eqI; (simp only: bit_simps)?; simp add: bit_3_iff)
   apply (hypsubst, rule uint32_eqI; (simp only: bit_simps)?; simp add: bit_3_iff)
  apply (hypsubst, rule uint32_eqI; (simp only: bit_simps)?; simp add: bit_3_iff)
  done

lemma read_size_step:
  assumes r: "\<And>i. i < e \<Longrightarrow> get_sample g i = Inr (smp g i)" and e: "8 * q + 8 \<le> e"
    and t: "top_bit = 8 * q + b + 6" and b: "b = 0 \<or> b = 8 \<or> b = 16 \<or> b = 24"
  shows "read_size_loop g top_bit e acc (8 * q) =
         read_size_loop g top_bit e (acc OR push_bit b (ucast (byte_at g q))) (8 * q + 8)"
proof -
  have lt: "8 * q < e" "8 * q + 2 < e" "8 * q + 4 < e" "8 * q + 6 < e" using e by simp_all
  have a: "8 * q + 2 + 2 = 8 * q + 4" "8 * q + 4 + 2 = 8 * q + 6" "8 * q + 6 + 2 = 8 * q + 8"
    by simp_all
  have d: "top_bit - 8 * q = b + 6" "top_bit - (8 * q + 2) = b + 4"
    "top_bit - (8 * q + 4) = b + 2" "top_bit - (8 * q + 6) = b"
    using t by simp_all
  show ?thesis
    unfolding read_size_loop_step [OF lt(1) r [OF lt(1)]]
      read_size_loop_step [OF lt(2) r [OF lt(2)]] a
      read_size_loop_step [OF lt(3) r [OF lt(3)]]
      read_size_loop_step [OF lt(4) r [OF lt(4)]] d
      size_term4 [OF b] byte_at_def ..
qed

lemma read_size_loop_first:
  assumes r: "\<And>i. i < 32 \<Longrightarrow> get_sample g i = Inr (smp g i)"
  shows "read_size_loop g 30 32 0 0 = Inr (be32_val (map (byte_at g) [0, 1, 2, 3]))"
proof -
  have "read_size_loop g 30 32 0 (8 * 0) =
        read_size_loop g 30 32 (0 OR push_bit 24 (ucast (byte_at g 0))) (8 * 0 + 8)"
    by (rule read_size_step [OF r]) simp_all
  also have "\<dots> = read_size_loop g 30 32 (0 OR push_bit 24 (ucast (byte_at g 0))) (8 * 1)" by simp
  also have "\<dots> = read_size_loop g 30 32 ((0 OR push_bit 24 (ucast (byte_at g 0))) OR push_bit 16 (ucast (byte_at g 1))) (8 * 1 + 8)"
    by (rule read_size_step [OF r]) simp_all
  also have "\<dots> = read_size_loop g 30 32 ((0 OR push_bit 24 (ucast (byte_at g 0))) OR push_bit 16 (ucast (byte_at g 1))) (8 * 2)" by simp
  also have "\<dots> = read_size_loop g 30 32 (((0 OR push_bit 24 (ucast (byte_at g 0))) OR push_bit 16 (ucast (byte_at g 1))) OR push_bit 8 (ucast (byte_at g 2))) (8 * 2 + 8)"
    by (rule read_size_step [OF r]) simp_all
  also have "\<dots> = read_size_loop g 30 32 (((0 OR push_bit 24 (ucast (byte_at g 0))) OR push_bit 16 (ucast (byte_at g 1))) OR push_bit 8 (ucast (byte_at g 2))) (8 * 3)" by simp
  also have "\<dots> = read_size_loop g 30 32 ((((0 OR push_bit 24 (ucast (byte_at g 0))) OR push_bit 16 (ucast (byte_at g 1))) OR push_bit 8 (ucast (byte_at g 2))) OR push_bit 0 (ucast (byte_at g 3))) (8 * 3 + 8)"
    by (rule read_size_step [OF r]) simp_all
  also have "\<dots> = Inr ((((0 OR push_bit 24 (ucast (byte_at g 0))) OR push_bit 16 (ucast (byte_at g 1))) OR push_bit 8 (ucast (byte_at g 2))) OR push_bit 0 (ucast (byte_at g 3)))"
    by (rule read_size_loop_end) simp
  also have "\<dots> = Inr (be32_val (map (byte_at g) [0, 1, 2, 3]))"
    by (simp add: be32_val_def or.assoc)
  finally show ?thesis by simp
qed

lemma read_size_loop_second:
  assumes r: "\<And>i. i < 64 \<Longrightarrow> get_sample g i = Inr (smp g i)"
  shows "read_size_loop g 62 64 0 32 = Inr (be32_val (map (byte_at g) [4, 5, 6, 7]))"
proof -
  have "read_size_loop g 62 64 0 (8 * 4) =
        read_size_loop g 62 64 (0 OR push_bit 24 (ucast (byte_at g 4))) (8 * 4 + 8)"
    by (rule read_size_step [OF r]) simp_all
  also have "\<dots> = read_size_loop g 62 64 (0 OR push_bit 24 (ucast (byte_at g 4))) (8 * 5)" by simp
  also have "\<dots> = read_size_loop g 62 64 ((0 OR push_bit 24 (ucast (byte_at g 4))) OR push_bit 16 (ucast (byte_at g 5))) (8 * 5 + 8)"
    by (rule read_size_step [OF r]) simp_all
  also have "\<dots> = read_size_loop g 62 64 ((0 OR push_bit 24 (ucast (byte_at g 4))) OR push_bit 16 (ucast (byte_at g 5))) (8 * 6)" by simp
  also have "\<dots> = read_size_loop g 62 64 (((0 OR push_bit 24 (ucast (byte_at g 4))) OR push_bit 16 (ucast (byte_at g 5))) OR push_bit 8 (ucast (byte_at g 6))) (8 * 6 + 8)"
    by (rule read_size_step [OF r]) simp_all
  also have "\<dots> = read_size_loop g 62 64 (((0 OR push_bit 24 (ucast (byte_at g 4))) OR push_bit 16 (ucast (byte_at g 5))) OR push_bit 8 (ucast (byte_at g 6))) (8 * 7)" by simp
  also have "\<dots> = read_size_loop g 62 64 ((((0 OR push_bit 24 (ucast (byte_at g 4))) OR push_bit 16 (ucast (byte_at g 5))) OR push_bit 8 (ucast (byte_at g 6))) OR push_bit 0 (ucast (byte_at g 7))) (8 * 7 + 8)"
    by (rule read_size_step [OF r]) simp_all
  also have "\<dots> = Inr ((((0 OR push_bit 24 (ucast (byte_at g 4))) OR push_bit 16 (ucast (byte_at g 5))) OR push_bit 8 (ucast (byte_at g 6))) OR push_bit 0 (ucast (byte_at g 7)))"
    by (rule read_size_loop_end) simp
  also have "\<dots> = Inr (be32_val (map (byte_at g) [4, 5, 6, 7]))"
    by (simp add: be32_val_def or.assoc)
  finally show ?thesis by simp
qed


section \<open>Claims about the channel address\<close>



section \<open>Claims about writing\<close>

lemma write_data_Inr:
  assumes "write_data g fn file = Inr g'"
  shows "required_data_bits fn file \<le> max_data_bits g"
    and "put_chunks g (stream_chunk (generate_signature fn (of_nat (length file)) @ file))
           (required_data_bits fn file) 0 = Inr g'"
  using assms unfolding write_data_put max_data_bits_def
  by (simp_all split: if_splits)

lemma stream_chunk_le3: "stream_chunk bs j AND 0xFC = 0"
  by (simp add: stream_chunk_def data_chunk_of_le3)

lemma write_data_png_4x3: "write_data png_4x3 [0x61] [] = Inr png_4x3_a"
  unfolding png_4x3_def png_4x3_a_def by code_simp

text \<open>
  C6. After a successful \<^verbatim>\<open>write_data\<close> the image has the shape it had, every sample
  has its six high bits unchanged, and the sample addressed by every chunk that was
  written (bit index \<open>2 * m\<close> below \<^verbatim>\<open>required_data_bits\<close>) has in its two low bits
  the chunk of the stream, signature then file, that belongs to that index.
\<close>

theorem write_data_high_bits:
  assumes "write_data g data_filename file = Inr g'"
  shows "same_shape g g'
    \<and> (\<forall>y k. in_png g y k \<longrightarrow> px g' y k AND 0xFC = px g y k AND 0xFC)
    \<and> (\<forall>m. 2 * m < required_data_bits data_filename file \<longrightarrow>
          (\<exists>y k. sample_addr g (2 * m) = Inr (y, k) \<and>
             px g' y k AND 3 =
               stream_chunk (generate_signature data_filename (of_nat (length file)) @ file)
                 (2 * m)))"
proof (intro conjI allI impI)
  let ?F = "stream_chunk (generate_signature data_filename (of_nat (length file)) @ file)"
  note p = write_data_Inr(2) [OF assms]
  show "same_shape g g'" using p by (rule put_chunks_shape)
  show "px g' y k AND 0xFC = px g y k AND 0xFC" if "in_png g y k" for y k
    using p stream_chunk_le3 that by (rule put_chunks_top6)
  show "\<exists>y k. sample_addr g (2 * m) = Inr (y, k) \<and> px g' y k AND 3 = ?F (2 * m)"
    if lt: "2 * m < required_data_bits data_filename file" for m
  proof -
    obtain y k where a: "sample_addr g (2 * m) = Inr (y, k)"
      and v: "px g' y k = (px g y k AND 0xFC) OR ?F (2 * m)"
      using put_chunks_touched [OF p _ _ lt, of 0] by auto
    have "px g' y k AND 3 = ?F (2 * m)"
      unfolding v by (rule low2_set) (rule stream_chunk_le3)
    then show ?thesis using a by blast
  qed
qed

theorem write_data_high_bits_witness:
  "write_data png_4x3 [0x61] [] = Inr png_4x3_a
   \<and> px png_4x3_a 2 12 AND 0xFC = px png_4x3 2 12 AND 0xFC
   \<and> px png_4x3_a 2 12 AND 3 = 2"
  using write_data_high_bits [OF write_data_png_4x3]
  by (simp add: write_data_png_4x3) (simp add: png_4x3_def png_4x3_a_def px_def)

text \<open>
  C8. After a successful \<^verbatim>\<open>write_data\<close> of a stream of \<open>n = 4 * (8 + length
  data_filename + length file)\<close> chunks, the sample addressed by a chunk number \<open>m \<ge> n\<close>
  is unchanged, byte 3 of every pixel is unchanged, and a sample that differs is
  addressed by a chunk number below \<open>n\<close>.
\<close>

theorem write_data_untouched_tail:
  assumes "write_data g data_filename file = Inr g'"
  shows "(\<forall>m y k. 4 * (8 + length data_filename + length file) \<le> m \<longrightarrow>
            sample_addr g (2 * m) = Inr (y, k) \<longrightarrow> px g' y k = px g y k)
    \<and> (\<forall>y k. in_png g y k \<longrightarrow> k mod channels (color_type g) = 3 \<longrightarrow> px g' y k = px g y k)
    \<and> (\<forall>y k. in_png g y k \<longrightarrow> px g' y k \<noteq> px g y k \<longrightarrow>
          (\<exists>m < 4 * (8 + length data_filename + length file). sample_addr g (2 * m) = Inr (y, k)))"
proof (intro conjI allI impI)
  let ?n = "4 * (8 + length data_filename + length file)"
  let ?req = "required_data_bits data_filename file"
  note p = write_data_Inr(2) [OF assms]
  have req: "?req \<le> 2 * ?n"
    using unat_size8_le [of "length file"] by (simp add: required_data_bits_def)
  show "px g' y k = px g y k" if "?n \<le> m" and a: "sample_addr g (2 * m) = Inr (y, k)" for m y k
  proof (rule put_chunks_untouched [OF p _ sample_addr_in_png [OF a], of 0])
    fix m' assume "2 * m' < ?req"
    then have "m' \<noteq> m" using req that(1) by simp
    then show "sample_addr g (2 * m') \<noteq> Inr (y, k)"
      using sample_addr_inj [of g m' "(y, k)" m] a by blast
  qed simp
  show "px g' y k = px g y k" if i: "in_png g y k" and k: "k mod channels (color_type g) = 3" for y k
  proof (rule put_chunks_untouched [OF p _ i, of 0])
    fix m'
    show "sample_addr g (2 * m') \<noteq> Inr (y, k)"
    proof
      assume "sample_addr g (2 * m') = Inr (y, k)"
      then have "k mod channels (color_type g) = m' mod 3" by (rule sample_addr_slot(4))
      then show False using k by simp
    qed
  qed simp
  show "\<exists>m<?n. sample_addr g (2 * m) = Inr (y, k)"
    if i: "in_png g y k" and ne: "px g' y k \<noteq> px g y k" for y k
  proof (rule ccontr)
    assume n: "\<not> (\<exists>m<?n. sample_addr g (2 * m) = Inr (y, k))"
    have "px g' y k = px g y k"
    proof (rule put_chunks_untouched [OF p _ i, of 0])
      fix m' assume "2 * m' < ?req"
      then have "m' < ?n" using req by simp
      then show "sample_addr g (2 * m') \<noteq> Inr (y, k)" using n by blast
    qed simp
    then show False using ne by simp
  qed
qed

theorem write_data_untouched_tail_witness:
  "write_data png_4x3 [0x61] [] = Inr png_4x3_a
   \<and> px png_4x3_a 2 11 = px png_4x3 2 11
   \<and> (\<exists>m<36. sample_addr png_4x3 (2 * m) = Inr (2, 12))"
proof -
  have i: "in_png png_4x3 2 11" "in_png png_4x3 2 12"
    by (simp_all add: in_png_def png_4x3_def)
  have c: "11 mod channels (color_type png_4x3) = 3"
    by (simp add: png_4x3_def channels_def)
  have ne: "px png_4x3_a 2 12 \<noteq> px png_4x3 2 12"
    by (simp add: px_def png_4x3_def png_4x3_a_def)
  show ?thesis
    using write_data_untouched_tail [OF write_data_png_4x3] i c ne write_data_png_4x3
    by fastforce
qed

section \<open>Reading uses the two low bits only\<close>

lemma ucast_and3: "(ucast (s::byte) :: uint32) AND 3 = ucast (s AND 3)"
  by (rule bit_word_eqI) (auto simp: bit_simps bit_3_iff)

lemma chunk_of_cases:
  assumes "chunk_of g1 i = chunk_of g2 i"
  obtains e where "get_sample g1 i = Inl e" "get_sample g2 i = Inl e"
  | s1 s2 where "get_sample g1 i = Inr s1" "get_sample g2 i = Inr s2" "s1 AND 3 = s2 AND 3"
  using assms by (auto simp: chunk_of_def split: sum.splits)

lemma read_size_loop_cong:
  "(\<And>j. chunk_of g1 j = chunk_of g2 j) \<Longrightarrow>
   read_size_loop g1 top_bit e acc i = read_size_loop g2 top_bit e acc i"
proof (induction g1 top_bit e acc i rule: read_size_loop.induct)
  case (1 g1 top_bit e acc i)
  show ?case
  proof (cases "i < e")
    case False
    then show ?thesis by (simp add: read_size_loop_end)
  next
    case True
    from 1(2) [of i] show ?thesis
    proof (cases rule: chunk_of_cases)
      case (1 err)
      then show ?thesis using True
        by (simp add: read_size_loop.simps [of g1 top_bit e acc i]
            read_size_loop.simps [of g2 top_bit e acc i])
    next
      case (2 s1 s2)
      have eq: "(ucast s1 :: uint32) AND 3 = ucast s2 AND 3"
        unfolding ucast_and3 2(3) ..
      show ?thesis
        unfolding read_size_loop_step [OF True 2(1)] read_size_loop_step [OF True 2(2)] eq
        using "1.IH" [OF True refl 2(1)] "1.prems" eq by simp
    qed
  qed
qed

lemma read_bytes_loop_cong:
  "(\<And>j. chunk_of g1 j = chunk_of g2 j) \<Longrightarrow>
   read_bytes_loop g1 e buf pos i = read_bytes_loop g2 e buf pos i"
proof (induction g1 e buf pos i rule: read_bytes_loop.induct)
  case (1 g1 e buf pos i)
  show ?case
  proof (cases "i < e")
    case False
    then show ?thesis by (simp add: read_bytes_loop_end)
  next
    case True
    from 1(2) [of i] show ?thesis
    proof (cases rule: chunk_of_cases)
      case (1 err)
      then show ?thesis using True
        by (simp add: read_bytes_loop.simps [of g1 e buf pos i]
            read_bytes_loop.simps [of g2 e buf pos i])
    next
      case (2 s1 s2)
      have eq: "(ucast s1 :: uint32) AND 3 = ucast s2 AND 3"
        unfolding ucast_and3 2(3) ..
      have "read_bytes_loop g1 e
              (buf(pos := buf pos OR ucast (push_bit (6 - i mod 8) ((ucast s1 :: uint32) AND 0x3))))
              (if 6 - i mod 8 = 0 then pos + 1 else pos) (i + 2) =
            read_bytes_loop g2 e
              (buf(pos := buf pos OR ucast (push_bit (6 - i mod 8) ((ucast s1 :: uint32) AND 0x3))))
              (if 6 - i mod 8 = 0 then pos + 1 else pos) (i + 2)"
        by (rule "1.IH" [OF True refl 2(1) "1.prems"])
      then show ?thesis using True 2(1,2) eq
        by (simp add: read_bytes_loop.simps [of g1 e buf pos i]
            read_bytes_loop.simps [of g2 e buf pos i] Let_def)
    qed
  qed
qed

lemma read_data_cong:
  assumes "\<And>j. chunk_of g1 j = chunk_of g2 j"
  shows "read_data g1 name_mem data_mem = read_data g2 name_mem data_mem"
  unfolding read_data_def
    read_size_loop_cong [of g1 g2, OF assms] read_bytes_loop_cong [of g1 g2, OF assms] ..

lemma sample_addr_even: "sample_addr g i = sample_addr g (2 * (i div 2))"
proof -
  have "i div 6 = i div 2 div 3" by (simp add: div_mult2_eq [symmetric])
  then have "locate i (width g) = locate (2 * (i div 2)) (width g)"
    unfolding locate_slot by (simp add: locate_def Let_def)
  then show ?thesis by (simp add: sample_addr_def)
qed

lemma chunk_of_agree:
  assumes sh: "same_shape g1 g2"
    and ag: "\<And>y k. in_png g1 y k \<Longrightarrow> k mod channels (color_type g1) < 3 \<Longrightarrow>
               px g2 y k AND 3 = px g1 y k AND 3"
  shows "chunk_of g1 j = chunk_of g2 j"
proof (cases "sample_addr g1 j")
  case (Inl e)
  then show ?thesis using same_shape_sample_addr [OF sh, of j]
    by (simp add: chunk_of_def get_sample_def)
next
  case (Inr a)
  obtain y k where a: "a = (y, k)" by (cases a)
  have s1: "sample_addr g1 (2 * (j div 2)) = Inr (y, k)"
    using Inr a sample_addr_even [of g1 j] by simp
  have "k mod channels (color_type g1) = j div 2 mod 3"
    using s1 by (rule sample_addr_slot(4))
  then have "k mod channels (color_type g1) < 3" by simp
  then have "px g2 y k AND 3 = px g1 y k AND 3"
    using ag sample_addr_in_png [OF s1] by simp
  then show ?thesis using Inr a same_shape_sample_addr [OF sh, of j]
    by (simp add: chunk_of_def get_sample_def px_def)
qed

section \<open>Claims about reading\<close>

text \<open>
  Where the two runs start from the same contents of the two \<^verbatim>\<open>malloc\<close> buffers, two
  images of the same shape whose samples other than byte 3 of a pixel agree in their two
  low bits give the same result of \<^verbatim>\<open>read_data\<close>: the high six bits of a sample and
  the alpha samples have no influence. What the result takes from the buffers is the
  subject of the last section.
\<close>

lemma read_data_low_bits_only:
  assumes "same_shape g1 g2"
    and "\<And>y k. in_png g1 y k \<Longrightarrow> k mod channels (color_type g1) < 3 \<Longrightarrow>
               px g2 y k AND 3 = px g1 y k AND 3"
  shows "read_data g2 name_mem data_mem = read_data g1 name_mem data_mem"
  using read_data_cong [of g1 g2 name_mem data_mem] chunk_of_agree [OF assms] by simp

lemma read_data_low_bits_only_witness:
  "same_shape png_4x4_ab png_4x4_ab_hi
   \<and> px png_4x4_ab_hi 1 7 \<noteq> px png_4x4_ab 1 7
   \<and> px png_4x4_ab_hi 2 9 \<noteq> px png_4x4_ab 2 9
   \<and> read_data png_4x4_ab_hi zeroed ones = read_data png_4x4_ab zeroed ones"
proof -
  have sh: "same_shape png_4x4_ab png_4x4_ab_hi"
    by (simp add: same_shape_def png_4x4_ab_def png_4x4_ab_hi_def)
  have all: "\<forall>y\<in>set [0..<4]. \<forall>k\<in>set [0..<16]. k mod 4 < 3 \<longrightarrow>
          px png_4x4_ab_hi y k AND 3 = px png_4x4_ab y k AND 3"
    unfolding px_def png_4x4_ab_def png_4x4_ab_hi_def by code_simp
  have ag: "px png_4x4_ab_hi y k AND 3 = px png_4x4_ab y k AND 3"
    if "in_png png_4x4_ab y k" "k mod channels (color_type png_4x4_ab) < 3" for y k
  proof -
    have y: "y < 4" using that(1) by (simp add: in_png_def png_4x4_ab_def)
    have "k < 16" using that(1) y
      by (auto simp add: in_png_def png_4x4_ab_def less_Suc_eq numeral_eq_Suc)
    moreover have "k mod 4 < 3" using that(2) by (simp add: png_4x4_ab_def channels_def)
    ultimately show ?thesis using all y by simp
  qed
  have "px png_4x4_ab_hi 1 7 \<noteq> px png_4x4_ab 1 7" "px png_4x4_ab_hi 2 9 \<noteq> px png_4x4_ab 2 9"
    by (simp_all add: px_def png_4x4_ab_def png_4x4_ab_hi_def)
  then show ?thesis
    using sh read_data_low_bits_only [OF sh ag, of zeroed ones] by simp
qed

text \<open>
  C7. In an RGBA image, a successful \<^verbatim>\<open>write_data\<close> leaves byte 3 of every pixel (of
  four bytes), the alpha sample, as it was; and \<^verbatim>\<open>read_data\<close> gives the same result on
  two RGBA images of the same shape that differ in alpha samples only.
\<close>

theorem alpha_untouched:
  assumes "color_type g = PNG_COLOR_TYPE_RGBA"
  shows "(\<forall>data_filename file g'. write_data g data_filename file = Inr g' \<longrightarrow>
           (\<forall>y x. in_png g y (x * 4 + 3) \<longrightarrow> px g' y (x * 4 + 3) = px g y (x * 4 + 3)))
    \<and> (\<forall>g2 name_mem data_mem. same_shape g g2 \<longrightarrow>
           (\<forall>y x c. in_png g y (x * 4 + c) \<longrightarrow> c < 3 \<longrightarrow> px g2 y (x * 4 + c) = px g y (x * 4 + c)) \<longrightarrow>
           read_data g2 name_mem data_mem = read_data g name_mem data_mem)"
proof (intro conjI allI impI)
  have ch: "channels (color_type g) = 4" using assms by (simp add: channels_def)
  fix data_filename fbytes g' y x
  assume w: "write_data g data_filename fbytes = Inr g'" and i: "in_png g y (x * 4 + 3)"
  show "px g' y (x * 4 + 3) = px g y (x * 4 + 3)"
  proof (rule put_chunks_untouched [OF write_data_Inr(2) [OF w] _ i, of 0])
    fix m
    show "sample_addr g (2 * m) \<noteq> Inr (y, x * 4 + 3)"
    proof
      assume "sample_addr g (2 * m) = Inr (y, x * 4 + 3)"
      then have "(x * 4 + 3) mod channels (color_type g) = m mod 3"
        by (rule sample_addr_slot(4))
      then show False unfolding ch by simp
    qed
  qed simp
next
  have ch: "channels (color_type g) = 4" using assms by (simp add: channels_def)
  fix g2 name_mem data_mem
  assume sh: "same_shape g g2"
    and ag: "\<forall>y x c. in_png g y (x * 4 + c) \<longrightarrow> c < 3 \<longrightarrow> px g2 y (x * 4 + c) = px g y (x * 4 + c)"
  have "chunk_of g j = chunk_of g2 j" for j
  proof (rule chunk_of_agree [OF sh])
    fix y k assume i: "in_png g y k" and k: "k mod channels (color_type g) < 3"
    have "k = (k div 4) * 4 + k mod 4" by simp
    then have "px g2 y k = px g y k"
      using ag i k unfolding ch by metis
    then show "px g2 y k AND 3 = px g y k AND 3" by simp
  qed
  then show "read_data g2 name_mem data_mem = read_data g name_mem data_mem"
    using read_data_cong [of g g2 name_mem data_mem] by simp
qed

theorem alpha_untouched_witness:
  "color_type png_4x3 = PNG_COLOR_TYPE_RGBA
   \<and> write_data png_4x3 [0x61] [] = Inr png_4x3_a
   \<and> px png_4x3_a 2 (3 * 4 + 3) = px png_4x3 2 (3 * 4 + 3)"
proof -
  have c: "color_type png_4x3 = PNG_COLOR_TYPE_RGBA" by (simp add: png_4x3_def)
  have i: "in_png png_4x3 2 (3 * 4 + 3)" by (simp add: in_png_def png_4x3_def)
  show ?thesis
    using alpha_untouched [OF c] write_data_png_4x3 i c by blast
qed

section \<open>Reading a well-formed image\<close>

lemma wf_get_sample:
  assumes "wf_png g" and "i < max_data_bits g"
  shows "get_sample g i = Inr (smp g i)"
proof -
  obtain y k where "sample_addr g i = Inr (y, k)"
    using wf_sample_addr_in [OF assms(1)] assms(2) unfolding max_data_bits_def by blast
  then show ?thesis by (simp add: smp_def get_sample_def)
qed

lemma wf_get_sample_out:
  assumes "wf_png g" and "max_data_bits g \<le> i"
  shows "get_sample g i = Inl OutOfBounds"
  using wf_sample_addr_out [OF assms(1)] assms(2) unfolding max_data_bits_def
  by (simp add: get_sample_def)

lemma max_data_bits_even: "\<exists>M. max_data_bits g = 2 * M"
  by (rule exI [of _ "width g * height g * 3"]) (simp add: max_data_bits_def)

lemma read_bytes_loop_out:
  "wf_png g \<Longrightarrow> i = 2 * n \<Longrightarrow> i < e \<Longrightarrow> max_data_bits g < e \<Longrightarrow>
   read_bytes_loop g e buf pos i = Inl OutOfBounds"
proof (induction g e buf pos i arbitrary: n rule: read_bytes_loop.induct)
  case (1 g e buf pos i)
  show ?case
  proof (cases "i < max_data_bits g")
    case False
    then have "get_sample g i = Inl OutOfBounds"
      using wf_get_sample_out [OF 1(2)] by simp
    then show ?thesis using 1(4)
      by (simp add: read_bytes_loop.simps [of g e buf pos i])
  next
    case True
    have s: "get_sample g i = Inr (smp g i)" using 1(2) True by (rule wf_get_sample)
    obtain M where "max_data_bits g = 2 * M" using max_data_bits_even by blast
    then have "i + 2 \<le> max_data_bits g" using True 1(3) by simp
    then have lt: "i + 2 < e" using 1(5) by simp
    have n: "i + 2 = 2 * (n + 1)" using 1(3) by simp
    have "read_bytes_loop g e
            (buf(pos := buf pos OR ucast (push_bit (6 - i mod 8) ((ucast (smp g i) :: uint32) AND 0x3))))
            (if 6 - i mod 8 = 0 then pos + 1 else pos) (i + 2) = Inl OutOfBounds"
      by (rule 1(1) [OF 1(4) refl s 1(2) n lt 1(5)])
    then show ?thesis using 1(4) s
      by (simp add: read_bytes_loop.simps [of g e buf pos i] Let_def)
  qed
qed

lemma read_size_loop_out:
  "wf_png g \<Longrightarrow> i = 2 * n \<Longrightarrow> i < e \<Longrightarrow> max_data_bits g < e \<Longrightarrow>
   read_size_loop g top_bit e acc i = Inl OutOfBounds"
proof (induction g top_bit e acc i arbitrary: n rule: read_size_loop.induct)
  case (1 g top_bit e acc i)
  show ?case
  proof (cases "i < max_data_bits g")
    case False
    then have "get_sample g i = Inl OutOfBounds"
      using wf_get_sample_out [OF 1(2)] by simp
    then show ?thesis using 1(4)
      by (simp add: read_size_loop.simps [of g top_bit e acc i])
  next
    case True
    have s: "get_sample g i = Inr (smp g i)" using 1(2) True by (rule wf_get_sample)
    obtain M where "max_data_bits g = 2 * M" using max_data_bits_even by blast
    then have "i + 2 \<le> max_data_bits g" using True 1(3) by simp
    then have lt: "i + 2 < e" using 1(5) by simp
    have n: "i + 2 = 2 * (n + 1)" using 1(3) by simp
    have "read_size_loop g top_bit e
            (acc OR push_bit (top_bit - i) ((ucast (smp g i) :: uint32) AND 0x3)) (i + 2)
          = Inl OutOfBounds"
      by (rule 1(1) [OF 1(4) refl s 1(2) n lt 1(5)])
    then show ?thesis
      unfolding read_size_loop_step [OF 1(4) s] .
  qed
qed

lemma read_sizes:
  assumes "wf_png g" and "64 \<le> max_data_bits g"
  shows "read_size_loop g 30 32 0 0 = Inr (data_filename_length_of g)"
    and "read_size_loop g 62 64 0 32 = Inr (data_file_size_of g)"
proof -
  have r: "get_sample g i = Inr (smp g i)" if "i < 64" for i
    using wf_get_sample [OF assms(1), of i] that assms(2) by simp
  show "read_size_loop g 30 32 0 0 = Inr (data_filename_length_of g)"
    unfolding data_filename_length_of_def by (rule read_size_loop_first) (simp add: r)
  show "read_size_loop g 62 64 0 32 = Inr (data_file_size_of g)"
    unfolding data_file_size_of_def by (rule read_size_loop_second) (simp add: r)
qed

lemma read_sizes_out:
  assumes "wf_png g" and "max_data_bits g < 64"
  shows "read_data g name_mem data_mem = Inl OutOfBounds"
proof (cases "max_data_bits g < 32")
  case True
  have "read_size_loop g 30 32 0 0 = Inl OutOfBounds"
    by (rule read_size_loop_out [OF assms(1), of 0 0]) (use True in simp_all)
  then show ?thesis by (simp add: read_data_def)
next
  case False
  have r: "get_sample g i = Inr (smp g i)" if "i < 32" for i
    using wf_get_sample [OF assms(1), of i] that False by simp
  have 1: "read_size_loop g 30 32 0 0 = Inr (data_filename_length_of g)"
    unfolding data_filename_length_of_def by (rule read_size_loop_first) (simp add: r)
  have 2: "read_size_loop g 62 64 0 32 = Inl OutOfBounds"
    by (rule read_size_loop_out [OF assms(1), of 32 16]) (use assms(2) in simp_all)
  show ?thesis by (simp add: read_data_def 1 2)
qed

lemma unat_bounds:
  fixes fl fs :: uint32
  assumes "64 + 8 * (unat fl + unat fs) < 2 ^ 32"
  shows "unat (64 + fl * 8) = 64 + 8 * unat fl"
    and "unat (64 + fl * 8 + fs * 8) = 64 + 8 * unat fl + 8 * unat fs"
proof -
  have fl: "fl = of_nat (unat fl)" and fs: "fs = of_nat (unat fs)" by simp_all
  have "64 + fl * 8 = of_nat (64 + 8 * unat fl)" by simp
  then have "unat (64 + fl * 8) = (64 + 8 * unat fl) mod 2 ^ 32"
    by (simp only: unat_of_nat) simp
  then show "unat (64 + fl * 8) = 64 + 8 * unat fl" using assms by simp
  have "64 + fl * 8 + fs * 8 = of_nat (64 + 8 * unat fl + 8 * unat fs)" by simp
  then have "unat (64 + fl * 8 + fs * 8) = (64 + 8 * unat fl + 8 * unat fs) mod 2 ^ 32"
    by (simp only: unat_of_nat) simp
  then show "unat (64 + fl * 8 + fs * 8) = 64 + 8 * unat fl + 8 * unat fs" using assms by simp
qed

lemma read_data_in:
  assumes wf: "wf_png g"
    and a: "a = unat (data_filename_length_of g)" and b: "b = unat (data_file_size_of g)"
    and nw: "64 + 8 * (a + b) < 2 ^ 32"
    and cap: "64 + 8 * (a + b) \<le> max_data_bits g"
  shows "read_data g name_mem data_mem =
    Inr (map (\<lambda>p. name_mem p OR byte_at g (8 + p)) [0..<a],
         map (\<lambda>p. data_mem p OR byte_at g (8 + a + p)) [0..<b])"
proof -
  have c64: "64 \<le> max_data_bits g" using cap by simp
  note rs = read_sizes [OF wf c64]
  note ub = unat_bounds [OF nw [unfolded a b], folded a b]
  have r: "get_sample g i = Inr (smp g i)" if "i < 64 + 8 * (a + b)" for i
    using wf_get_sample [OF wf, of i] that cap by simp
  have n: "read_bytes_loop g (8 * (8 + a)) name_mem 0 (8 * 8) =
     Inr (\<lambda>p. if 0 \<le> p \<and> p < 0 + a then name_mem p OR byte_at g (8 + (p - 0)) else name_mem p)"
    by (rule read_bytes_loop_bytes) (simp add: r)
  have d: "read_bytes_loop g (8 * (8 + a + b)) data_mem 0 (8 * (8 + a)) =
     Inr (\<lambda>p. if 0 \<le> p \<and> p < 0 + b then data_mem p OR byte_at g (8 + a + (p - 0)) else data_mem p)"
    by (rule read_bytes_loop_bytes) (simp add: r)
  have e1: "64 + 8 * a = 8 * (8 + a)" and e2: "64 + 8 * a + 8 * b = 8 * (8 + a + b)"
    and e0: "(64::nat) = 8 * 8" by simp_all
  have n': "read_bytes_loop g (64 + 8 * a) name_mem 0 64 =
     Inr (\<lambda>p. if p < a then name_mem p OR byte_at g (8 + p) else name_mem p)"
    using n unfolding e1 by (simp cong: if_cong)
  have d': "read_bytes_loop g (64 + 8 * a + 8 * b) data_mem 0 (64 + 8 * a) =
     Inr (\<lambda>p. if p < b then data_mem p OR byte_at g (8 + a + p) else data_mem p)"
    using d unfolding e1 e2 by (simp cong: if_cong)
  show ?thesis
    unfolding read_data_def rs sum.case ub n' d' a [symmetric] b [symmetric]
    by simp
qed

lemma read_data_out:
  assumes wf: "wf_png g"
    and a: "a = unat (data_filename_length_of g)" and b: "b = unat (data_file_size_of g)"
    and nw: "64 + 8 * (a + b) < 2 ^ 32"
    and cap: "max_data_bits g < 64 + 8 * (a + b)"
  shows "read_data g name_mem data_mem = Inl OutOfBounds"
proof (cases "max_data_bits g < 64")
  case True
  then show ?thesis using wf by (intro read_sizes_out)
next
  case False
  then have c64: "64 \<le> max_data_bits g" by simp
  note rs = read_sizes [OF wf c64]
  note ub = unat_bounds [OF nw [unfolded a b], folded a b]
  show ?thesis
  proof (cases "max_data_bits g < 64 + 8 * a")
    case True
    have "read_bytes_loop g (64 + 8 * a) name_mem 0 64 = Inl OutOfBounds"
      by (rule read_bytes_loop_out [OF wf, of 64 32]) (use True c64 in simp_all)
    then show ?thesis
      unfolding read_data_def rs sum.case ub by simp
  next
    case False
    have r: "get_sample g i = Inr (smp g i)" if "i < 8 * (8 + a)" for i
      using wf_get_sample [OF wf, of i] that False by simp
    have "read_bytes_loop g (8 * (8 + a)) name_mem 0 (8 * 8) =
     Inr (\<lambda>p. if 0 \<le> p \<and> p < 0 + a then name_mem p OR byte_at g (8 + (p - 0)) else name_mem p)"
      by (rule read_bytes_loop_bytes) (simp add: r)
    then have n: "read_bytes_loop g (64 + 8 * a) name_mem 0 64 =
       Inr (\<lambda>p. if p < a then name_mem p OR byte_at g (8 + p) else name_mem p)"
      by (simp add: algebra_simps cong: if_cong)
    have d: "read_bytes_loop g (64 + 8 * a + 8 * b) data_mem 0 (64 + 8 * a) = Inl OutOfBounds" for data_mem
      by (rule read_bytes_loop_out [OF wf, of _ "32 + 4 * a"]) (use False cap in simp_all)
    show ?thesis
      unfolding read_data_def rs sum.case ub n d by simp
  qed
qed

section \<open>Lengths that exceed the capacity\<close>

lemma wf_png_4x3_wrap: "wf_png png_4x3_wrap"
  by (simp add: wf_png_def png_4x3_wrap_def channels_def)

lemma wf_png_4x3_long: "wf_png png_4x3_long"
  by (simp add: wf_png_def png_4x3_long_def channels_def)

lemma png_4x3_wrap_lengths:
  "data_filename_length_of png_4x3_wrap = 1" "data_file_size_of png_4x3_wrap = 0x20000000"
  "byte_at png_4x3_wrap 8 = 0x61" "max_data_bits png_4x3_wrap = 72"
  unfolding png_4x3_wrap_def by code_simp+

lemma png_4x3_long_lengths:
  "data_filename_length_of png_4x3_long = 1" "data_file_size_of png_4x3_long = 1"
  "max_data_bits png_4x3_long = 72"
  unfolding png_4x3_long_def by code_simp+

text \<open>
  C2, as stated, fails: the image \<open>png_4x3_wrap\<close> has 72 bits of capacity and holds the
  lengths 1 and \<open>2 ^ 29\<close>, yet \<^verbatim>\<open>read_data\<close> returns a file name and \<open>2 ^ 29\<close> bytes
  (the contents of the \<^verbatim>\<open>malloc\<close> buffer), because its loop bounds wrap at \<open>2 ^ 32\<close>.
\<close>

theorem read_data_no_validation_counterexample:
  "unat (data_filename_length_of png_4x3_wrap) = 1
   \<and> unat (data_file_size_of png_4x3_wrap) = 536870912
   \<and> (1 + 536870912) * 8 + 64 > width png_4x3_wrap * height png_4x3_wrap * 6
   \<and> read_data png_4x3_wrap zeroed zeroed = Inr ([0x61], replicate 536870912 0)"
proof -
  note l = png_4x3_wrap_lengths
  have c64: "64 \<le> max_data_bits png_4x3_wrap" by (simp add: l)
  note rs = read_sizes [OF wf_png_4x3_wrap c64, unfolded l]
  have r: "get_sample png_4x3_wrap i = Inr (smp png_4x3_wrap i)" if "i < 72" for i
    using wf_get_sample [OF wf_png_4x3_wrap, of i] that by (simp add: l)
  have "read_bytes_loop png_4x3_wrap (8 * (8 + 1)) zeroed 0 (8 * 8) =
     Inr (\<lambda>p. if 0 \<le> p \<and> p < 0 + 1 then zeroed p OR byte_at png_4x3_wrap (8 + (p - 0)) else zeroed p)"
    by (rule read_bytes_loop_bytes) (simp add: r)
  then have n: "read_bytes_loop png_4x3_wrap 72 zeroed 0 64 =
     Inr (\<lambda>p. if p = 0 then 0x61 else 0)"
    by (simp add: l zeroed_def cong: if_cong)
  have d: "read_bytes_loop png_4x3_wrap 72 zeroed 0 72 = Inr zeroed"
    by (rule read_bytes_loop_end) simp
  have m: "map zeroed [0..<536870912] = replicate 536870912 0"
    unfolding zeroed_def by (rule map_replicate_trivial)
  have "read_data png_4x3_wrap zeroed zeroed = Inr ([0x61], replicate 536870912 0)"
    unfolding read_data_def rs sum.case by (simp add: n d m)
  moreover have "width png_4x3_wrap * height png_4x3_wrap * 6 = 72"
    by (simp add: png_4x3_wrap_def)
  ultimately show ?thesis by (simp add: l)
qed

text \<open>
  C2, amended. \<^verbatim>\<open>read_data\<close> validates nothing. On a well-formed image whose decoded
  lengths \<open>a\<close> and \<open>b\<close> are small enough for the loop bounds not to wrap
  (\<open>64 + 8 * (a + b) < 2 ^ 32\<close>) and exceed the capacity
  (\<open>(a + b) * 8 + 64 > width * height * 6\<close>), the reads run past the last row, which the
  model reports as \<open>OutOfBounds\<close>, and nothing is returned.
\<close>

theorem read_data_past_capacity:
  assumes "wf_png g"
    and "a = unat (data_filename_length_of g)" and "b = unat (data_file_size_of g)"
    and "64 + 8 * (a + b) < 2 ^ 32"
    and "(a + b) * 8 + 64 > width g * height g * 6"
  shows "read_data g name_mem data_mem = Inl OutOfBounds"
  by (rule read_data_out [OF assms(1,2,3,4)]) (use assms(5) in \<open>simp add: max_data_bits_def\<close>)

theorem read_data_past_capacity_witness:
  "wf_png png_4x3_long
   \<and> unat (data_filename_length_of png_4x3_long) = 1 \<and> unat (data_file_size_of png_4x3_long) = 1
   \<and> (1 + 1) * 8 + 64 > width png_4x3_long * height png_4x3_long * (6::nat)
   \<and> read_data png_4x3_long zeroed zeroed = Inl OutOfBounds"
proof -
  have c: "width png_4x3_long * height png_4x3_long * 6 = 72"
    by (simp add: png_4x3_long_def)
  have "read_data png_4x3_long zeroed zeroed = Inl OutOfBounds"
    by (rule read_data_past_capacity [OF wf_png_4x3_long, of 1 1])
      (simp_all add: png_4x3_long_lengths c)
  then show ?thesis using wf_png_4x3_long c by (simp add: png_4x3_long_lengths)
qed

section \<open>The two formulas of the reading loops\<close>

lemma upt_4: "[q..<q + 4] = [q, q + 1, q + 2, q + (3::nat)]"
proof -
  have "[0..<4] = [0, 1, 2, 3::nat]" by code_simp
  moreover have "[q..<q + 4] = map (\<lambda>k. k + q) [0..<4]"
    by (simp only: map_add_upt add.commute)
  ultimately show ?thesis by (simp add: add.commute)
qed

lemma image_chunks_4: "image_chunks g (4 * q) (4 * Suc n) =
    (smp g (8 * q) AND 3) # (smp g (8 * q + 2) AND 3) # (smp g (8 * q + 4) AND 3)
      # (smp g (8 * q + 6) AND 3) # image_chunks g (4 * Suc q) (4 * n)"
proof -
  have "[4 * q..<4 * q + 4 + 4 * n] = [4 * q..<4 * q + 4] @ [4 * q + 4..<4 * q + 4 + 4 * n]"
    by (rule upt_add_eq_append) simp
  then have L: "[4 * q..<4 * q + 4 * Suc n] =
        [4 * q, 4 * q + 1, 4 * q + 2, 4 * q + 3] @ [4 * Suc q..<4 * Suc q + 4 * n]"
    unfolding upt_4 by (simp add: add.commute add.left_commute)
  have m: "2 * (4 * q) = 8 * q" "2 * (4 * q + 1) = 8 * q + 2" "2 * (4 * q + 2) = 8 * q + 4"
    "2 * (4 * q + 3) = 8 * q + 6" by simp_all
  show ?thesis
    unfolding image_chunks_def L map_append list.map append.simps m ..
qed

lemma chunks_to_bytes_image:
  "chunks_to_bytes (image_chunks g (4 * q) (4 * n)) = map (byte_at g) [q..<q + n]"
proof (induction n arbitrary: q)
  case 0
  show ?case by (simp add: image_chunks_def)
next
  case (Suc n)
  have "[q..<q + Suc n] = q # [Suc q..<Suc q + n]" by (simp add: upt_rec [of q])
  then show ?case
    unfolding image_chunks_4 chunks_to_bytes.simps Suc.IH by (simp add: byte_at_def)
qed

text \<open>
  Where the buffer holds zero bytes, the two formulas agree. On an image that holds bit
  indices up to 64, the formula of the two length loops applied to 16 chunks gives the
  big-endian value of the four bytes that the one routine makes of these chunks; and the
  formula of the two byte loops, applied to any run of chunks inside the image and ORed
  into zero bytes, gives exactly the bytes of the one routine. The length loops start
  from an accumulator that is 0; the byte loops start from what \<^verbatim>\<open>malloc\<close> returned,
  which is the subject of the last section.
\<close>

lemma formulas_agree:
  assumes "wf_png g" and "64 \<le> max_data_bits g"
  shows "read_size_loop g 30 32 0 0 = Inr (be32_val (chunks_to_bytes (image_chunks g 0 16)))
    \<and> read_size_loop g 62 64 0 32 = Inr (be32_val (chunks_to_bytes (image_chunks g 16 16)))
    \<and> (\<forall>q n. 8 * (q + n) \<le> max_data_bits g \<longrightarrow>
          (\<exists>buf. read_bytes_loop g (8 * (q + n)) zeroed 0 (8 * q) = Inr buf \<and>
             map buf [0..<n] = chunks_to_bytes (image_chunks g (4 * q) (4 * n))))"
proof (intro conjI allI impI)
  have u: "[0..<4] = [0, 1, 2, 3::nat]" "[4..<8] = [4, 5, 6, 7::nat]" by code_simp+
  have 1: "chunks_to_bytes (image_chunks g 0 16) = map (byte_at g) [0, 1, 2, 3]"
    using chunks_to_bytes_image [of g 0 4] by (simp add: u del: upt_Suc)
  have 2: "chunks_to_bytes (image_chunks g 16 16) = map (byte_at g) [4, 5, 6, 7]"
    using chunks_to_bytes_image [of g 4 4] by (simp add: u del: upt_Suc)
  show "read_size_loop g 30 32 0 0 = Inr (be32_val (chunks_to_bytes (image_chunks g 0 16)))"
    unfolding 1 using read_sizes(1) [OF assms] by (simp add: data_filename_length_of_def)
  show "read_size_loop g 62 64 0 32 = Inr (be32_val (chunks_to_bytes (image_chunks g 16 16)))"
    unfolding 2 using read_sizes(2) [OF assms] by (simp add: data_file_size_of_def)
next
  fix q n assume c: "8 * (q + n) \<le> max_data_bits g"
  let ?buf = "\<lambda>p. if 0 \<le> p \<and> p < 0 + n then zeroed p OR byte_at g (q + (p - 0)) else zeroed p"
  have r: "get_sample g i = Inr (smp g i)" if "i < 8 * (q + n)" for i
    using wf_get_sample [OF assms(1), of i] that c by simp
  have b: "read_bytes_loop g (8 * (q + n)) zeroed 0 (8 * q) = Inr ?buf"
    by (rule read_bytes_loop_bytes) (simp add: r)
  have "map ?buf [0..<n] = map (\<lambda>p. byte_at g (q + p)) [0..<n]"
    by (rule map_cong) (simp_all add: zeroed_def)
  also have "\<dots> = map (byte_at g) (map (\<lambda>p. q + p) [0..<n])" by simp
  also have "map (\<lambda>p. q + p) [0..<n] = [q..<q + n]"
    by (simp add: map_add_upt add.commute)
  finally have "map ?buf [0..<n] = chunks_to_bytes (image_chunks g (4 * q) (4 * n))"
    unfolding chunks_to_bytes_image .
  then show "\<exists>buf. read_bytes_loop g (8 * (q + n)) zeroed 0 (8 * q) = Inr buf \<and>
             map buf [0..<n] = chunks_to_bytes (image_chunks g (4 * q) (4 * n))"
    using b by blast
qed

lemma formulas_agree_witness:
  "wf_png png_4x3_wrap \<and> 64 \<le> max_data_bits png_4x3_wrap
   \<and> read_size_loop png_4x3_wrap 62 64 0 32 = Inr 0x20000000
   \<and> chunks_to_bytes (image_chunks png_4x3_wrap 16 16) = [0x20, 0, 0, 0]
   \<and> (\<exists>buf. read_bytes_loop png_4x3_wrap 64 zeroed 0 32 = Inr buf
         \<and> map buf [0..<4] = [0x20, 0, 0, 0])"
proof -
  have c64: "64 \<le> max_data_bits png_4x3_wrap" by (simp add: png_4x3_wrap_lengths)
  note t = formulas_agree [OF wf_png_4x3_wrap c64]
  have e: "chunks_to_bytes (image_chunks png_4x3_wrap 16 16) = [0x20, 0, 0, 0]"
    unfolding png_4x3_wrap_def by code_simp
  have v: "be32_val [0x20, 0, 0, 0] = 0x20000000" by (simp add: be32_val_def)
  have "8 * (4 + 4) \<le> max_data_bits png_4x3_wrap \<longrightarrow>
        (\<exists>buf. read_bytes_loop png_4x3_wrap (8 * (4 + 4)) zeroed 0 (8 * 4) = Inr buf \<and>
          map buf [0..<4] = chunks_to_bytes (image_chunks png_4x3_wrap (4 * 4) (4 * 4)))"
    using t by blast
  then have "\<exists>buf. read_bytes_loop png_4x3_wrap 64 zeroed 0 32 = Inr buf \<and>
          map buf [0..<4] = [0x20, 0, 0, 0]"
    using c64 by (simp add: e del: upt_Suc)
  then show ?thesis
    using t wf_png_4x3_wrap c64 by (simp add: e v del: upt_Suc)
qed

section \<open>What a successful write leaves in the image\<close>

lemma smp_written:
  assumes w: "write_data g fn fb = Inr g'" and lt: "2 * m < required_data_bits fn fb"
  shows "get_sample g' (2 * m) = Inr (smp g' (2 * m))"
    and "smp g' (2 * m) AND 3 =
          stream_chunk (generate_signature fn (of_nat (length fb)) @ fb) (2 * m)"
proof -
  let ?F = "stream_chunk (generate_signature fn (of_nat (length fb)) @ fb)"
  note p = write_data_Inr(2) [OF w]
  obtain y k where a: "sample_addr g (2 * m) = Inr (y, k)"
    and v: "px g' y k = (px g y k AND 0xFC) OR ?F (2 * m)"
    using put_chunks_touched [OF p _ _ lt, of 0] by auto
  have a': "sample_addr g' (2 * m) = Inr (y, k)"
    using a same_shape_sample_addr [OF put_chunks_shape [OF p]] by simp
  then have s: "get_sample g' (2 * m) = Inr (px g' y k)"
    by (simp add: get_sample_def px_def)
  then show "get_sample g' (2 * m) = Inr (smp g' (2 * m))" by (simp add: smp_def)
  have "smp g' (2 * m) = px g' y k" using s by (simp add: smp_def)
  then show "smp g' (2 * m) AND 3 = ?F (2 * m)"
    unfolding v by (simp add: low2_set [OF stream_chunk_le3])
qed

lemma stream_chunk_slot:
  "r < 4 \<Longrightarrow> stream_chunk bs (8 * q + 2 * r) = data_chunk_of (bs ! q) (6 - 2 * r)"
  by (simp add: stream_chunk_def)

lemma byte_at_written:
  assumes w: "write_data g fn fb = Inr g'" and le: "8 * q + 8 \<le> required_data_bits fn fb"
  shows "byte_at g' q = (generate_signature fn (of_nat (length fb)) @ fb) ! q"
proof -
  let ?S = "generate_signature fn (of_nat (length fb)) @ fb"
  have c: "smp g' (8 * q + 2 * r) AND 3 = data_chunk_of (?S ! q) (6 - 2 * r)" if "r < 4" for r
  proof -
    have "2 * (4 * q + r) < required_data_bits fn fb" using that le by simp
    from smp_written(2) [OF w this] show ?thesis
      using stream_chunk_slot [OF that, of ?S q] by (simp add: algebra_simps)
  qed
  have "byte_at g' q = assemble (data_chunk_of (?S ! q) 6) (data_chunk_of (?S ! q) 4)
                                (data_chunk_of (?S ! q) 2) (data_chunk_of (?S ! q) 0)"
    unfolding byte_at_def using c [of 0] c [of 1] c [of 2] c [of 3] by simp
  then show ?thesis by (simp only: assemble_chunks)
qed

lemma drop_bit_ucast_64_32:
  "k \<le> 24 \<Longrightarrow> (ucast (drop_bit k (w :: 64 word)) :: byte) = ucast (drop_bit k (ucast w :: uint32))"
  by (rule bit_word_eqI) (auto simp: bit_simps)

lemma ucast_of_nat_64_32: "(ucast (of_nat n :: 64 word) :: uint32) = of_nat n"
  by (rule bit_word_eqI) (auto simp: bit_simps)

lemma generate_signature_be32:
  "generate_signature fn sz = be32 (of_nat (length fn)) @ be32 sz @ fn"
proof -
  have f: "filename_length_byte (of_nat (length fn)) i =
           ucast (drop_bit (i * 8) (of_nat (length fn) :: uint32))" if "i < 4" for i
    unfolding filename_length_byte_eq [OF that]
    using drop_bit_ucast_64_32 [of "i * 8" "of_nat (length fn)"] that
    by (simp add: ucast_of_nat_64_32)
  show ?thesis
    unfolding generate_signature_def Let_def be32_def
    by (simp add: f file_size_byte_eq)
qed

lemma lengths_written:
  assumes w: "write_data g fn fb = Inr g'"
  shows "data_filename_length_of g' = of_nat (length fn)"
    and "data_file_size_of g' = of_nat (length fb)"
proof -
  let ?S = "generate_signature fn (of_nat (length fb)) @ fb"
  have b: "byte_at g' q = ?S ! q" if "q < 8" for q
    by (rule byte_at_written [OF w]) (use that in \<open>simp add: required_data_bits_def\<close>)
  have 1: "map (byte_at g') [0, 1, 2, 3] = be32 (of_nat (length fn))"
    unfolding generate_signature_be32 be32_def by (simp add: b generate_signature_be32 be32_def)
  have 2: "map (byte_at g') [4, 5, 6, 7] = be32 (of_nat (length fb))"
    unfolding generate_signature_be32 be32_def by (simp add: b generate_signature_be32 be32_def)
  show "data_filename_length_of g' = of_nat (length fn)"
    unfolding data_filename_length_of_def 1 by (rule be32_val_be32)
  show "data_file_size_of g' = of_nat (length fb)"
    unfolding data_file_size_of_def 2 by (rule be32_val_be32)
qed

lemma write_data_ok:
  assumes "wf_png g" and "required_data_bits fn fb \<le> max_data_bits g"
  shows "\<exists>g'. write_data g fn fb = Inr g' \<and> wf_png g'"
proof -
  obtain g' where p: "put_chunks g (stream_chunk (generate_signature fn (of_nat (length fb)) @ fb))
           (required_data_bits fn fb) 0 = Inr g'"
    using put_chunks_ok [OF assms(1)] assms(2) unfolding max_data_bits_def by blast
  have "wf_png g'" using put_chunks_shape [OF p] assms(1) by (rule same_shape_wf)
  then show ?thesis using p assms(2) unfolding write_data_put max_data_bits_def by simp
qed

lemma required_data_bits_small:
  "length fb < 2 ^ 29 \<Longrightarrow> required_data_bits fn fb = (8 + length fn + length fb) * 8"
proof -
  assume "length fb < 2 ^ 29"
  then have "(length fb * 8) mod 2 ^ 32 = length fb * 8" by simp
  moreover have "(of_nat (length fb) :: uint32) * 8 = of_nat (length fb * 8)" by simp
  ultimately have "unat ((of_nat (length fb) :: uint32) * 8) = length fb * 8"
    by (simp only: unat_of_nat) simp
  then show ?thesis by (simp add: required_data_bits_def)
qed

text \<open>
  For a file name and a file of less than \<open>2 ^ 29\<close> bytes together with the header, on a
  well-formed image that can hold them, reading what was written into zeroed buffers
  returns the file name and the file.
\<close>

lemma round_trip_small:
  assumes wf: "wf_png g" and small: "8 + length fn + length fb < 2 ^ 29"
    and cap: "(8 + length fn + length fb) * 8 \<le> width g * height g * 6"
  shows "\<exists>g'. write_data g fn fb = Inr g' \<and> read_data g' zeroed zeroed = Inr (fn, fb)"
proof -
  let ?S = "generate_signature fn (of_nat (length fb)) @ fb"
  have req: "required_data_bits fn fb = (8 + length fn + length fb) * 8"
    by (rule required_data_bits_small) (use small in simp)
  obtain g' where w: "write_data g fn fb = Inr g'" and wf': "wf_png g'"
    using write_data_ok [OF wf, of fn fb] cap unfolding req max_data_bits_def by blast
  have sh: "same_shape g g'" using write_data_Inr(2) [OF w] by (rule put_chunks_shape)
  have m: "max_data_bits g' = max_data_bits g" using sh by (simp add: same_shape_def max_data_bits_def)
  have a: "length fn = unat (data_filename_length_of g')"
    unfolding lengths_written(1) [OF w] using small by (simp add: unat_of_nat)
  have b: "length fb = unat (data_file_size_of g')"
    unfolding lengths_written(2) [OF w] using small by (simp add: unat_of_nat)
  have nw: "64 + 8 * (length fn + length fb) < 2 ^ 32" using small by simp
  have c: "64 + 8 * (length fn + length fb) \<le> max_data_bits g'"
    unfolding m using cap by (simp add: max_data_bits_def)
  have rd: "read_data g' zeroed zeroed =
    Inr (map (\<lambda>p. zeroed p OR byte_at g' (8 + p)) [0..<length fn],
         map (\<lambda>p. zeroed p OR byte_at g' (8 + length fn + p)) [0..<length fb])"
    by (rule read_data_in [OF wf' a b nw c])
  have S: "?S = be32 (of_nat (length fn)) @ be32 (of_nat (length fb)) @ fn @ fb"
    by (simp add: generate_signature_be32)
  have l: "length (be32 v) = 4" for v by (simp add: be32_def)
  have n: "map (\<lambda>p. zeroed p OR byte_at g' (8 + p)) [0..<length fn] = fn"
  proof -
    have "map (\<lambda>p. zeroed p OR byte_at g' (8 + p)) [0..<length fn] = map (\<lambda>p. fn ! p) [0..<length fn]"
    proof (rule map_cong [OF refl])
      fix p assume "p \<in> set [0..<length fn]"
      then have p: "p < length fn" by simp
      have "byte_at g' (8 + p) = ?S ! (8 + p)"
        by (rule byte_at_written [OF w]) (use p in \<open>simp add: req\<close>)
      also have "\<dots> = fn ! p" unfolding S using p by (simp add: nth_append l)
      finally show "zeroed p OR byte_at g' (8 + p) = fn ! p" by (simp add: zeroed_def)
    qed
    then show ?thesis by (simp add: map_nth)
  qed
  have d: "map (\<lambda>p. zeroed p OR byte_at g' (8 + length fn + p)) [0..<length fb] = fb"
  proof -
    have "map (\<lambda>p. zeroed p OR byte_at g' (8 + length fn + p)) [0..<length fb]
          = map (\<lambda>p. fb ! p) [0..<length fb]"
    proof (rule map_cong [OF refl])
      fix p assume "p \<in> set [0..<length fb]"
      then have p: "p < length fb" by simp
      have "byte_at g' (8 + length fn + p) = ?S ! (8 + length fn + p)"
        by (rule byte_at_written [OF w]) (use p in \<open>simp add: req\<close>)
      also have "\<dots> = fb ! p" unfolding S using p by (simp add: nth_append l)
      finally show "zeroed p OR byte_at g' (8 + length fn + p) = fb ! p" by (simp add: zeroed_def)
    qed
    then show ?thesis by (simp add: map_nth)
  qed
  show ?thesis using w rd unfolding n d by blast
qed

section \<open>A file of \<open>2 ^ 29\<close> bytes\<close>

lemma length_file_512M: "length file_512M = 536870912"
  by (simp add: file_512M_def)

lemma required_data_bits_512M: "required_data_bits fn file_512M = (8 + length fn) * 8"
  by (simp add: required_data_bits_def length_file_512M)

lemma wf_png_10x10: "wf_png png_10x10"
  by (simp add: wf_png_def png_10x10_def channels_def)

lemma wf_png_30000: "wf_png png_30000"
  by (simp add: wf_png_def png_30000_def channels_def)

text \<open>
  C3 at a failing input: for the 10 by 10 image, the name \<open>a.txt\<close> and a file of
  \<open>2 ^ 29\<close> bytes, 4294967400 bits are required and 600 are there, yet \<^verbatim>\<open>write_data\<close>
  computes \<^verbatim>\<open>required_data_bits\<close> as 104, does not abort, and returns an image.
\<close>

theorem capacity_check_overflow:
  "(8 + length a_txt + length file_512M) * 8 = 4294967400
   \<and> width png_10x10 * height png_10x10 * 6 = 600
   \<and> required_data_bits a_txt file_512M = 104
   \<and> (\<exists>g'. write_data png_10x10 a_txt file_512M = Inr g')"
proof -
  have r: "required_data_bits a_txt file_512M = 104"
    by (simp add: required_data_bits_512M a_txt_def)
  have "required_data_bits a_txt file_512M \<le> max_data_bits png_10x10"
    unfolding r by (simp add: max_data_bits_def png_10x10_def)
  then have "\<exists>g'. write_data png_10x10 a_txt file_512M = Inr g'"
    using write_data_ok [OF wf_png_10x10] by blast
  then show ?thesis using r
    by (simp add: length_file_512M a_txt_def png_10x10_def)
qed

text \<open>
  The capacity check where \<^verbatim>\<open>size * 8\<close> does not overflow: for a file of less than
  \<open>2 ^ 29\<close> bytes and a well-formed image, \<^verbatim>\<open>write_data\<close> returns an image when the
  required bits are at most the capacity and aborts with the two byte counts otherwise.
\<close>

lemma capacity_check_small:
  assumes "wf_png g" and "length fb < 2 ^ 29"
  shows "(8 + length fn + length fb) * 8 \<le> width g * height g * 6 \<Longrightarrow>
           \<exists>g'. write_data g fn fb = Inr g'"
    and "(8 + length fn + length fb) * 8 > width g * height g * 6 \<Longrightarrow>
           write_data g fn fb =
             Inl (PngTooSmall (8 + length fn + length fb) (width g * height g * 6 div 8))"
proof -
  note r = required_data_bits_small [OF assms(2), of fn]
  show "\<exists>g'. write_data g fn fb = Inr g'"
    if "(8 + length fn + length fb) * 8 \<le> width g * height g * 6"
    using write_data_ok [OF assms(1), of fn fb] that unfolding r max_data_bits_def by blast
  show "write_data g fn fb =
      Inl (PngTooSmall (8 + length fn + length fb) (width g * height g * 6 div 8))"
    if "(8 + length fn + length fb) * 8 > width g * height g * 6"
    unfolding write_data_put r using that by simp
qed

text \<open>
  C5 at a failing input: for the 4 by 3 image, the name \<open>a\<close> and a file of \<open>2 ^ 29\<close>
  bytes \<^verbatim>\<open>write_data\<close> returns the image that holds the nine bytes of the signature
  and nothing else, whatever the bytes of the file are.
\<close>

theorem embedded_stream_overflow:
  "write_data png_4x3 [0x61] (replicate 536870912 c) = Inr png_4x3_wrap"
proof -
  let ?fb = "replicate 536870912 c"
  have r: "required_data_bits [0x61] ?fb = 72" by (simp add: required_data_bits_def)
  have s: "generate_signature [0x61] (of_nat (length ?fb)) = [0, 0, 0, 1, 0x20, 0, 0, 0, 0x61]"
    by (simp, code_simp)
  have "put_chunks png_4x3 (stream_chunk (generate_signature [0x61] (of_nat (length ?fb)) @ ?fb)) 72 0 =
        put_chunks png_4x3 (stream_chunk [0, 0, 0, 1, 0x20, 0, 0, 0, 0x61]) 72 0"
  proof (rule put_chunks_cong)
    fix j :: nat assume "j < 72"
    then have "j div 8 < length (generate_signature [0x61] (of_nat (length ?fb)))"
      unfolding length_generate_signature by simp
    then have "(generate_signature [0x61] (of_nat (length ?fb)) @ ?fb) ! (j div 8) =
               [0, 0, 0, 1, 0x20, 0, 0, 0, 0x61] ! (j div 8)"
      unfolding s [symmetric] by (simp only: nth_append if_True)
    then show "stream_chunk (generate_signature [0x61] (of_nat (length ?fb)) @ ?fb) j =
               stream_chunk [0, 0, 0, 1, 0x20, 0, 0, 0, 0x61] j"
      unfolding stream_chunk_def by (simp only:)
  qed
  also have "\<dots> = Inr png_4x3_wrap"
    unfolding png_4x3_def png_4x3_wrap_def by code_simp
  finally show ?thesis
    unfolding write_data_put r by (simp add: png_4x3_def)
qed

text \<open>
  What a successful \<^verbatim>\<open>write_data\<close> embeds when \<^verbatim>\<open>size * 8\<close> does not overflow: the
  byte number \<open>q\<close> of the image is the byte number \<open>q\<close> of the two lengths, most
  significant byte first, the file name and the file.
\<close>

lemma embedded_stream_small:
  assumes "write_data g fn fb = Inr g'" and "length fb < 2 ^ 29"
    and "q < 8 + length fn + length fb"
  shows "byte_at g' q = (be32 (of_nat (length fn)) @ be32 (of_nat (length fb)) @ fn @ fb) ! q"
proof -
  have "8 * q + 8 \<le> required_data_bits fn fb"
    unfolding required_data_bits_small [OF assms(2)] using assms(3) by simp
  from byte_at_written [OF assms(1) this] show ?thesis
    by (simp add: generate_signature_be32)
qed

lemma read_after_overflow:
  assumes wf: "wf_png g" and cap: "72 \<le> max_data_bits g"
  shows "\<exists>g'. write_data g [0x61] file_512M = Inr g' \<and>
          read_data g' name_mem data_mem =
            Inr ([name_mem 0 OR 0x61], map data_mem [0..<536870912])"
proof -
  have r: "required_data_bits [0x61] file_512M = 72" by (simp add: required_data_bits_512M)
  obtain g' where w: "write_data g [0x61] file_512M = Inr g'" and wf': "wf_png g'"
    using write_data_ok [OF wf, of "[0x61]" file_512M] cap unfolding r by blast
  have sh: "same_shape g g'" using write_data_Inr(2) [OF w] by (rule put_chunks_shape)
  have m: "max_data_bits g' = max_data_bits g"
    using sh by (simp add: same_shape_def max_data_bits_def)
  have c64: "64 \<le> max_data_bits g'" using cap m by simp
  have l: "data_filename_length_of g' = 1" "data_file_size_of g' = 0x20000000"
    using lengths_written [OF w] by (simp_all add: length_file_512M)
  note rs = read_sizes [OF wf' c64, unfolded l]
  have g: "get_sample g' i = Inr (smp g' i)" if "i < 72" for i
    using wf_get_sample [OF wf', of i] that cap m by simp
  have b: "byte_at g' 8 = 0x61"
    using byte_at_written [OF w, of 8] r by (simp add: generate_signature_def)
  have "read_bytes_loop g' (8 * (8 + 1)) name_mem 0 (8 * 8) =
     Inr (\<lambda>p. if 0 \<le> p \<and> p < 0 + 1 then name_mem p OR byte_at g' (8 + (p - 0)) else name_mem p)"
    by (rule read_bytes_loop_bytes) (simp add: g)
  then have n: "read_bytes_loop g' 72 name_mem 0 64 =
     Inr (\<lambda>p. if p = 0 then name_mem 0 OR 0x61 else name_mem p)"
    by (simp add: b cong: if_cong)
  have d: "read_bytes_loop g' 72 data_mem 0 72 = Inr data_mem"
    by (rule read_bytes_loop_end) simp
  have "read_data g' name_mem data_mem = Inr ([name_mem 0 OR 0x61], map data_mem [0..<536870912])"
    unfolding read_data_def rs sum.case by (simp add: n d)
  then show ?thesis using w by blast
qed

text \<open>
  C1 at a failing input: the 30000 by 30000 image can hold the name \<open>a\<close> and a file of
  \<open>2 ^ 29\<close> bytes \<open>0xFF\<close>, but after \<^verbatim>\<open>write_data\<close>, \<^verbatim>\<open>read_data\<close> returns, into zeroed
  buffers, \<open>2 ^ 29\<close> bytes 0.
\<close>

theorem round_trip_overflow:
  "(length [0x61 :: byte] + length file_512M + 8) * 8 \<le> width png_30000 * height png_30000 * 6
   \<and> (\<exists>g'. write_data png_30000 [0x61] file_512M = Inr g'
         \<and> read_data g' zeroed zeroed = Inr ([0x61], replicate 536870912 0))
   \<and> replicate 536870912 0 \<noteq> file_512M"
proof -
  have m: "map zeroed [0..<536870912] = replicate 536870912 0"
    unfolding zeroed_def by (rule map_replicate_trivial)
  have "72 \<le> max_data_bits png_30000" by (simp add: max_data_bits_def png_30000_def)
  from read_after_overflow [OF wf_png_30000 this, of zeroed zeroed]
  have "\<exists>g'. write_data png_30000 [0x61] file_512M = Inr g'
         \<and> read_data g' zeroed zeroed = Inr ([0x61], replicate 536870912 0)"
    unfolding m by (simp add: zeroed_def)
  moreover have "replicate 536870912 0 \<noteq> file_512M"
    by (simp add: file_512M_def)
  ultimately show ?thesis
    by (simp add: length_file_512M png_30000_def)
qed

text \<open>
  The buffers are not cleared before the loops OR into them: read into a file name buffer
  that holds \<open>0xFF\<close>, the image written for the name \<open>a\<close> gives the name \<open>0xFF\<close>.
\<close>

lemma read_data_uninitialised:
  "write_data png_4x3 [0x61] [] = Inr png_4x3_a
   \<and> read_data png_4x3_a zeroed zeroed = Inr ([0x61], [])
   \<and> read_data png_4x3_a ones zeroed = Inr ([0xFF], [])"
proof -
  have wf: "wf_png png_4x3_a" by (simp add: wf_png_def png_4x3_a_def channels_def)
  have l: "data_filename_length_of png_4x3_a = 1" "data_file_size_of png_4x3_a = 0"
    "byte_at png_4x3_a 8 = 0x61" "max_data_bits png_4x3_a = 72"
    unfolding png_4x3_a_def by code_simp+
  have "read_data png_4x3_a name_mem data_mem =
    Inr (map (\<lambda>p. name_mem p OR byte_at png_4x3_a (8 + p)) [0..<1],
         map (\<lambda>p. data_mem p OR byte_at png_4x3_a (8 + 1 + p)) [0..<0])" for name_mem data_mem
    by (rule read_data_in [OF wf]) (simp_all add: l)
  then show ?thesis
    by (simp add: l write_data_png_4x3 zeroed_def ones_def)
qed

section \<open>The two buffers are not overrun\<close>

lemma read_bytes_loop_frame:
  "read_bytes_loop g e buf pos i = Inr buf' \<Longrightarrow> i = 8 * q + 2 * r \<Longrightarrow> r < 4 \<Longrightarrow>
   e \<le> 8 * (q + n) \<Longrightarrow> p < pos \<or> pos + n \<le> p \<Longrightarrow> buf' p = buf p"
proof (induction g e buf pos i arbitrary: q r n rule: read_bytes_loop.induct)
  case (1 g e buf pos i)
  show ?case
  proof (cases "i < e")
    case False
    then show ?thesis using 1(2) by (simp add: read_bytes_loop_end)
  next
    case True
    then obtain s where s: "get_sample g i = Inr s"
      using 1(2) by (cases "get_sample g i") (simp_all add: read_bytes_loop.simps [of g e buf pos i])
    let ?b = "buf(pos := buf pos OR ucast (push_bit (6 - i mod 8) ((ucast s :: uint32) AND 0x3)))"
    have nxt: "read_bytes_loop g e ?b (if 6 - i mod 8 = 0 then pos + 1 else pos) (i + 2) = Inr buf'"
      using 1(2) True s by (simp add: read_bytes_loop.simps [of g e buf pos i] Let_def)
    have im: "i mod 8 = 2 * r" unfolding 1(3) using 1(4) by (rule mod8_slot)
    have n0: "0 < n" using True 1(3,5) 1(4) by (cases n) simp_all
    then have p: "p \<noteq> pos" using 1(6) by auto
    show ?thesis
    proof (cases "r = 3")
      case True
      have z: "6 - i mod 8 = 0" using im True by simp
      have "buf' p = ?b p"
      proof (rule 1(1) [OF \<open>i < e\<close> refl s nxt, of "q + 1" 0 "n - 1"])
        show "i + 2 = 8 * (q + 1) + 2 * 0" using 1(3) True by simp
        show "e \<le> 8 * (q + 1 + (n - 1))" using 1(5) n0 by simp
        show "p < (if 6 - i mod 8 = 0 then pos + 1 else pos) \<or>
              (if 6 - i mod 8 = 0 then pos + 1 else pos) + (n - 1) \<le> p"
          using 1(6) n0 z by auto
      qed simp
      then show ?thesis using p by simp
    next
      case False
      then have r: "r < 3" using 1(4) by simp
      have z: "6 - i mod 8 \<noteq> 0" using im r by simp
      have "buf' p = ?b p"
      proof (rule 1(1) [OF \<open>i < e\<close> refl s nxt, of q "r + 1" n])
        show "i + 2 = 8 * q + 2 * (r + 1)" using 1(3) by simp
        show "r + 1 < 4" using r by simp
        show "e \<le> 8 * (q + n)" by (rule 1(5))
        show "p < (if 6 - i mod 8 = 0 then pos + 1 else pos) \<or>
              (if 6 - i mod 8 = 0 then pos + 1 else pos) + n \<le> p"
          using 1(6) z by auto
      qed
      then show ?thesis using p by simp
    qed
  qed
qed

lemma unat_times8_le: "unat ((w :: uint32) * 8) \<le> 8 * unat w"
  using unat_size8_le [of "unat w"] by simp

lemma unat_add_le: "unat (x + y :: uint32) \<le> unat x + unat y"
proof -
  have "x + y = of_nat (unat x + unat y)" by simp
  then have "unat (x + y) = (unat x + unat y) mod 2 ^ 32"
    by (simp only: unat_of_nat) simp
  then show ?thesis by simp
qed

lemma unat_start_dvd: "8 dvd unat (64 + (fl :: uint32) * 8)"
proof -
  have "64 + fl * 8 = of_nat (8 * (8 + unat fl))" by simp
  then have "unat (64 + fl * 8) = (8 * (8 + unat fl)) mod 2 ^ 32"
    by (simp only: unat_of_nat) simp
  moreover have "(8::nat) dvd 2 ^ 32" by simp
  ultimately show ?thesis by (simp add: dvd_mod)
qed

text \<open>
  The loops of \<^verbatim>\<open>read_data\<close> write only into the first \<^verbatim>\<open>data_filename_length\<close>
  bytes of the file name buffer and the first \<^verbatim>\<open>data_file_size\<close> bytes of the data
  buffer: what lies behind a buffer stays as it was.
\<close>

lemma read_data_buffers:
  fixes fl fs :: uint32
  shows "read_bytes_loop g (unat (64 + fl * 8)) name_mem 0 64 = Inr data_filename \<Longrightarrow>
           unat fl \<le> p \<Longrightarrow> data_filename p = name_mem p"
    and "read_bytes_loop g (unat (64 + fl * 8 + fs * 8)) data_mem 0 (unat (64 + fl * 8)) = Inr data \<Longrightarrow>
           unat fs \<le> p \<Longrightarrow> data p = data_mem p"
proof -
  have e1: "unat (64 + fl * 8) \<le> 8 * (8 + unat fl)"
    using unat_add_le [of 64 "fl * 8"] unat_times8_le [of fl] by simp
  show "data_filename p = name_mem p"
    if "read_bytes_loop g (unat (64 + fl * 8)) name_mem 0 64 = Inr data_filename" "unat fl \<le> p"
    using read_bytes_loop_frame [OF that(1), of 8 0 "unat fl" p] e1 that(2) by simp
  obtain q where q: "unat (64 + fl * 8) = 8 * q" using unat_start_dvd [of fl] by (elim dvdE)
  have e2: "unat (64 + fl * 8 + fs * 8) \<le> 8 * (q + unat fs)"
    using unat_add_le [of "64 + fl * 8" "fs * 8"] unat_times8_le [of fs] q by simp
  show "data p = data_mem p"
    if "read_bytes_loop g (unat (64 + fl * 8 + fs * 8)) data_mem 0 (unat (64 + fl * 8)) = Inr data"
      "unat fs \<le> p"
    using read_bytes_loop_frame [OF that(1), of q 0 "unat fs" p] e2 that(2) q by simp
qed

section \<open>Buffers that are not cleared\<close>

text \<open>
  The two accumulators of the length loops are initialised to 0 where they are declared.
  The two buffers of the byte loops are what \<^verbatim>\<open>malloc\<close> returned, and nothing clears
  them before the loops OR the chunks into them: every byte of the result is the byte
  that the buffer held ORed with the byte of the image.
\<close>

lemma wf_png_4x4_ab: "wf_png png_4x4_ab"
  by (simp add: wf_png_def png_4x4_ab_def channels_def)

lemma wf_png_4x4_ab_hi: "wf_png png_4x4_ab_hi"
  by (simp add: wf_png_def png_4x4_ab_hi_def channels_def)

lemma png_4x4_ab_lengths:
  "data_filename_length_of png_4x4_ab = 1" "data_file_size_of png_4x4_ab = 1"
  "byte_at png_4x4_ab 8 = 0x61" "byte_at png_4x4_ab 9 = 0x62" "max_data_bits png_4x4_ab = 96"
  unfolding png_4x4_ab_def by code_simp+

lemma png_4x4_ab_hi_lengths:
  "data_filename_length_of png_4x4_ab_hi = 1" "data_file_size_of png_4x4_ab_hi = 1"
  "byte_at png_4x4_ab_hi 8 = 0x61" "byte_at png_4x4_ab_hi 9 = 0x62"
  "max_data_bits png_4x4_ab_hi = 96"
  unfolding png_4x4_ab_hi_def by code_simp+

lemma read_data_png_4x4_ab:
  "read_data png_4x4_ab name_mem data_mem = Inr ([name_mem 0 OR 0x61], [data_mem 0 OR 0x62])"
proof -
  have "read_data png_4x4_ab name_mem data_mem =
    Inr (map (\<lambda>p. name_mem p OR byte_at png_4x4_ab (8 + p)) [0..<1],
         map (\<lambda>p. data_mem p OR byte_at png_4x4_ab (8 + 1 + p)) [0..<1])"
    by (rule read_data_in [OF wf_png_4x4_ab]) (simp_all add: png_4x4_ab_lengths)
  then show ?thesis by (simp add: png_4x4_ab_lengths)
qed

lemma read_data_png_4x4_ab_hi:
  "read_data png_4x4_ab_hi name_mem data_mem =
   Inr ([name_mem 0 OR 0x61], [data_mem 0 OR 0x62])"
proof -
  have "read_data png_4x4_ab_hi name_mem data_mem =
    Inr (map (\<lambda>p. name_mem p OR byte_at png_4x4_ab_hi (8 + p)) [0..<1],
         map (\<lambda>p. data_mem p OR byte_at png_4x4_ab_hi (8 + 1 + p)) [0..<1])"
    by (rule read_data_in [OF wf_png_4x4_ab_hi]) (simp_all add: png_4x4_ab_hi_lengths)
  then show ?thesis by (simp add: png_4x4_ab_hi_lengths)
qed



text \<open>
  C10 at a failing input: \<open>png_4x4_ab\<close> is what \<^verbatim>\<open>write_data\<close> makes of the name \<open>a\<close>
  and the one byte \<open>b\<close>, and \<open>png_4x4_ab_hi\<close> has the same shape and the same two low
  bits in every sample other than byte 3 of a pixel. From buffers of zero bytes
  \<^verbatim>\<open>read_data\<close> gives the name \<open>a\<close> and the byte \<open>b\<close> for both. From a file name
  buffer that holds \<open>0xFF\<close> it gives the name \<open>0xFF\<close>, from a data buffer that holds
  \<open>0xFF\<close> the byte \<open>0xFF\<close>, and from buffers that hold \<open>0x04\<close> and \<open>0x01\<close> the name
  \<open>e\<close> and the byte \<open>c\<close>: the result does not depend on the two low bits of the
  samples only.
\<close>

theorem read_data_uncleared_buffers:
  "write_data png_4x4 [0x61] [0x62] = Inr png_4x4_ab
   \<and> same_shape png_4x4_ab png_4x4_ab_hi
   \<and> usable_low_bits png_4x4_ab_hi = usable_low_bits png_4x4_ab
   \<and> read_data png_4x4_ab zeroed zeroed = Inr ([0x61], [0x62])
   \<and> read_data png_4x4_ab_hi zeroed zeroed = Inr ([0x61], [0x62])
   \<and> read_data png_4x4_ab_hi ones zeroed = Inr ([0xFF], [0x62])
   \<and> read_data png_4x4_ab_hi zeroed ones = Inr ([0x61], [0xFF])
   \<and> read_data png_4x4_ab (\<lambda>p. 0x04) (\<lambda>p. 0x01) = Inr ([0x65], [0x63])"
proof -
  have w: "write_data png_4x4 [0x61] [0x62] = Inr png_4x4_ab"
    unfolding png_4x4_def png_4x4_ab_def by code_simp
  have s: "same_shape png_4x4_ab png_4x4_ab_hi"
    by (simp add: same_shape_def png_4x4_ab_def png_4x4_ab_hi_def)
  have u: "usable_low_bits png_4x4_ab_hi = usable_low_bits png_4x4_ab"
    unfolding png_4x4_ab_def png_4x4_ab_hi_def by code_simp
  show ?thesis
    by (simp add: w s u read_data_png_4x4_ab read_data_png_4x4_ab_hi zeroed_def ones_def)
qed

end
